theory Spec2Isabelle
  imports Main
begin

section \<open>Pointers, undefined behaviour, atomics\<close>

text \<open>
  A raw block address is a natural number; a pointer is an optional address, \<open>None\<close>
  being \<open>nullptr\<close>. Where the C++ source would dereference a null pointer, index an
  array out of range, divide by zero or read an object that was never constructed, the
  model returns a \<open>fault\<close> instead of a state.
\<close>

type_synonym addr = nat
type_synonym ptr = "addr option"

datatype fault = NullDeref | OutOfBounds | DivByZero | UninitRead

text \<open>
  \<open>std::atomic::compare_exchange_strong(expected, desired)\<close> on an atomic holding
  \<open>cur\<close>: the result is the success flag, the new content of the atomic and the new
  content of the by-reference argument \<open>expected\<close> (overwritten with the observed
  value on failure).
\<close>

definition compare_exchange_strong :: "'p \<Rightarrow> 'p \<Rightarrow> 'p \<Rightarrow> bool \<times> 'p \<times> 'p" where
  "compare_exchange_strong cur expected desired =
     (if cur = expected then (True, desired, expected) else (False, cur, cur))"

text \<open>\<open>std::atomic::exchange(desired)\<close>: the old content and the new content.\<close>

definition exchange :: "'p \<Rightarrow> 'p \<Rightarrow> 'p \<times> 'p" where
  "exchange cur desired = (cur, desired)"

section \<open>MemoryAllocator\<close>

subsection \<open>\<open>MemoryAllocator<T, 0>\<close>: the system allocator\<close>

text \<open>
  The free store is the list of blocks that \<open>::operator new(sizeof(T), std::nothrow)\<close>
  can still hand out, in the order it hands them out; it returns \<open>nullptr\<close> when the
  list is exhausted. \<open>::operator delete\<close> gives a block back and ignores \<open>nullptr\<close>.
\<close>

type_synonym sysmem = "addr list"

definition MemoryAllocator0_alloc :: "sysmem \<Rightarrow> ptr \<times> sysmem" where
  "MemoryAllocator0_alloc sys = (case sys of [] \<Rightarrow> (None, []) | a # rest \<Rightarrow> (Some a, rest))"

definition MemoryAllocator0_free :: "ptr \<Rightarrow> sysmem \<Rightarrow> sysmem" where
  "MemoryAllocator0_free p sys = (case p of None \<Rightarrow> sys | Some a \<Rightarrow> a # sys)"

subsection \<open>The members of the three class templates\<close>

text \<open>
  One record holds the data members of the primary template (\<open>mQueueBuffer\<close>,
  \<open>mHead\<close>, \<open>mTail\<close>) and of the specialisation for \<open>S = 1\<close> (\<open>mPtr\<close>); the
  template argument \<open>S\<close> selects, as in the source, which member functions run and so
  which fields are live. The array \<open>std::array<T*, S>\<close> is a function on indices,
  and every access checks the index against \<open>S\<close>.
\<close>

record MemoryAllocator =
  mQueueBuffer :: "nat \<Rightarrow> ptr"
  mHead :: nat
  mTail :: nat
  mPtr :: ptr

subsection \<open>The primary template, \<open>S > 1\<close>\<close>

definition UINT32_MAX :: nat where
  "UINT32_MAX = 4294967295"

text \<open>
  \<open>IndexType\<close> is \<open>std::atomic_uint64_t\<close> when \<open>S > UINT32_MAX / 2\<close> and
  \<open>std::atomic_uint32_t\<close> otherwise: the width of the counters and of every
  expression whose operands are a counter and an \<open>int\<close> or \<open>uint32_t\<close>.
\<close>

definition index_bits :: "nat \<Rightarrow> nat" where
  "index_bits S = (if S > UINT32_MAX div 2 then 64 else 32)"

definition wrap :: "nat \<Rightarrow> nat \<Rightarrow> nat" where
  "wrap w x = x mod 2 ^ w"

text \<open>
  The subexpression \<open>2 * S\<close>: its operands are the \<open>int\<close> literal 2 and the
  \<open>uint32_t\<close> template argument, so it is computed on \<open>unsigned int\<close>, 32 bits wide,
  whatever \<open>IndexType\<close> is.
\<close>

definition two_S :: "nat \<Rightarrow> nat" where
  "two_S S = wrap 32 (2 * S)"

text \<open>
  The loop of \<open>alloc\<close>. Its state is the local \<open>ptr\<close>, the local \<open>head\<close> and the
  members; it returns the final \<open>ptr\<close> and members. A failed compare-and-swap reloads
  \<open>head\<close> and goes round again.
\<close>

function alloc_loop :: "nat \<Rightarrow> MemoryAllocator \<Rightarrow> ptr \<Rightarrow> nat \<Rightarrow> fault + (ptr \<times> MemoryAllocator)" where
  "alloc_loop S a p head =
     (if head = mTail a then Inr (p, a)
      else if two_S S = 0 then Inl DivByZero
      else
        let nHead = wrap (index_bits S) (head + 1) mod two_S S;
            rHead = (if head < S then head else head - S)
        in if S \<le> rHead then Inl OutOfBounds
           else
             let p' = mQueueBuffer a rHead;
                 (ok, cur, head') = compare_exchange_strong (mHead a) head nHead
             in if ok then Inr (p', a\<lparr>mHead := cur\<rparr>)
                else alloc_loop S (a\<lparr>mHead := cur\<rparr>) p' head')"
  by pat_completeness auto
termination
  by (relation "measure (\<lambda>(S, a, p, head). if mHead a = head then 0 else 1)")
     (auto simp: compare_exchange_strong_def split: if_splits)

definition MemoryAllocator_alloc ::
  "nat \<Rightarrow> MemoryAllocator \<Rightarrow> sysmem \<Rightarrow> fault + (ptr \<times> MemoryAllocator \<times> sysmem)" where
  "MemoryAllocator_alloc S a sys =
     (case alloc_loop S a None (mHead a) of
        Inl f \<Rightarrow> Inl f
      | Inr (p, a') \<Rightarrow>
          (case p of
             Some x \<Rightarrow> Inr (Some x, a', sys)
           | None \<Rightarrow> (let (q, sys') = MemoryAllocator0_alloc sys in Inr (q, a', sys'))))"

text \<open>
  The loop of \<open>free\<close>, entered with a non-null block \<open>p\<close>. It returns what is left in
  the local \<open>ptr\<close> when the loop is left: \<open>None\<close> once the block is in the cache.
\<close>

function free_loop :: "nat \<Rightarrow> MemoryAllocator \<Rightarrow> addr \<Rightarrow> nat \<Rightarrow> fault + (ptr \<times> MemoryAllocator)" where
  "free_loop S a p tail =
     (let head = mHead a
      in if wrap (index_bits S) (head + S) = tail \<or> wrap (index_bits S) (tail + S) = head
         then Inr (Some p, a)
         else if two_S S = 0 then Inl DivByZero
         else
           let nTail = wrap (index_bits S) (tail + 1) mod two_S S;
               (ok, cur, tail') = compare_exchange_strong (mTail a) tail nTail
           in if ok then
                let rTail = (if tail < S then tail else tail - S)
                in if S \<le> rTail then Inl OutOfBounds
                   else Inr (None, a\<lparr>mTail := cur, mQueueBuffer := (mQueueBuffer a)(rTail := Some p)\<rparr>)
              else free_loop S (a\<lparr>mTail := cur\<rparr>) p tail')"
  by pat_completeness auto
termination
  by (relation "measure (\<lambda>(S, a, p, tail). if mTail a = tail then 0 else 1)")
     (auto simp: compare_exchange_strong_def split: if_splits)

definition MemoryAllocator_free ::
  "nat \<Rightarrow> ptr \<Rightarrow> MemoryAllocator \<Rightarrow> sysmem \<Rightarrow> fault + (MemoryAllocator \<times> sysmem)" where
  "MemoryAllocator_free S ptr a sys =
     (case ptr of
        None \<Rightarrow> Inr (a, sys)
      | Some p \<Rightarrow>
          (case free_loop S a p (mTail a) of
             Inl f \<Rightarrow> Inl f
           | Inr (rest, a') \<Rightarrow> Inr (a', MemoryAllocator0_free rest sys)))"

subsection \<open>\<open>MemoryAllocator<T, 1>\<close>: one cached block\<close>

definition MemoryAllocator1_alloc :: "MemoryAllocator \<Rightarrow> sysmem \<Rightarrow> ptr \<times> MemoryAllocator \<times> sysmem" where
  "MemoryAllocator1_alloc a sys =
     (let (tmp, cur) = exchange (mPtr a) None;
          a' = a\<lparr>mPtr := cur\<rparr>
      in case tmp of
           Some x \<Rightarrow> (Some x, a', sys)
         | None \<Rightarrow> (let (q, sys') = MemoryAllocator0_alloc sys in (q, a', sys')))"

definition MemoryAllocator1_free :: "ptr \<Rightarrow> MemoryAllocator \<Rightarrow> sysmem \<Rightarrow> MemoryAllocator \<times> sysmem" where
  "MemoryAllocator1_free ptr a sys =
     (let (tmp, cur) = exchange (mPtr a) ptr;
          a' = a\<lparr>mPtr := cur\<rparr>
      in case tmp of
           Some x \<Rightarrow> (a', MemoryAllocator0_free (Some x) sys)
         | None \<Rightarrow> (a', sys))"

subsection \<open>Selection of the template by \<open>S\<close>\<close>

definition allocator_alloc ::
  "nat \<Rightarrow> MemoryAllocator \<Rightarrow> sysmem \<Rightarrow> fault + (ptr \<times> MemoryAllocator \<times> sysmem)" where
  "allocator_alloc S a sys =
     (if S = 0 then (let (q, sys') = MemoryAllocator0_alloc sys in Inr (q, a, sys'))
      else if S = 1 then Inr (MemoryAllocator1_alloc a sys)
      else MemoryAllocator_alloc S a sys)"

definition allocator_free ::
  "nat \<Rightarrow> ptr \<Rightarrow> MemoryAllocator \<Rightarrow> sysmem \<Rightarrow> fault + (MemoryAllocator \<times> sysmem)" where
  "allocator_free S ptr a sys =
     (if S = 0 then Inr (a, MemoryAllocator0_free ptr sys)
      else if S = 1 then Inr (MemoryAllocator1_free ptr a sys)
      else MemoryAllocator_free S ptr a sys)"

declare alloc_loop.simps [simp del] free_loop.simps [simp del]

text \<open>
  A block is not leaked when the system allocator can hand it out again or the cache of
  the allocator stores it.
\<close>

definition holds_block :: "nat \<Rightarrow> MemoryAllocator \<Rightarrow> sysmem \<Rightarrow> addr \<Rightarrow> bool" where
  "holds_block S a sys m =
     (m \<in> set sys \<or> (S = 1 \<and> mPtr a = Some m) \<or>
      (1 < S \<and> list_ex (\<lambda>i. mQueueBuffer a i = Some m) [0..<S]))"

text \<open>An allocator with an empty cache, for the concrete evaluations below.\<close>

definition cache0 :: MemoryAllocator where
  "cache0 = \<lparr>mQueueBuffer = (\<lambda>_. None), mHead = 0, mTail = 0, mPtr = None\<rparr>"

section \<open>ObjectAllocator\<close>

text \<open>
  \<open>ObjectAllocator<T, S>::alloc(args...)\<close>. What the constructor of \<open>T\<close> does on
  \<open>args\<close> is the argument \<open>c\<close>: \<open>Inr v\<close> when it builds the object \<open>v\<close>, \<open>Inl e\<close>
  when it throws \<open>e\<close> (then \<open>T\<close> is not nothrow-constructible and the
  \<open>try\<close>/\<open>catch\<close> branch is the one compiled). The result is the exception that
  leaves \<open>alloc\<close> or the pointer it returns, with the allocator, the free store and
  the objects alive in the blocks.
\<close>

definition ObjectAllocator_alloc ::
  "nat \<Rightarrow> 'e + 'a \<Rightarrow> MemoryAllocator \<Rightarrow> sysmem \<Rightarrow> (addr \<Rightarrow> 'a option)
     \<Rightarrow> fault + (('e + ptr) \<times> MemoryAllocator \<times> sysmem \<times> (addr \<Rightarrow> 'a option))" where
  "ObjectAllocator_alloc S c a sys objs =
     (case allocator_alloc S a sys of
        Inl f \<Rightarrow> Inl f
      | Inr (memory, a1, sys1) \<Rightarrow>
          (case memory of
             None \<Rightarrow> Inr (Inr None, a1, sys1, objs)
           | Some m \<Rightarrow>
               (case c of
                  Inr v \<Rightarrow> Inr (Inr (Some m), a1, sys1, objs(m := Some v))
                | Inl e \<Rightarrow>
                    (case allocator_free S (Some m) a1 sys1 of
                       Inl f \<Rightarrow> Inl f
                     | Inr (a2, sys2) \<Rightarrow> Inr (Inl e, a2, sys2, objs)))))"

section \<open>ChunkList\<close>

text \<open>
  A chunk is an array of \<open>N\<close> slots and two links. A slot holds \<open>Some v\<close> while an
  object \<open>v\<close> lives in it and \<open>None\<close> while it is raw memory (never constructed, or
  destroyed). The address of a slot, a \<open>T*\<close> in the source, is the pair of the
  chunk's address and the index of the slot; the pipe compares such addresses and never
  does arithmetic on them.
\<close>

record 'a Chunk =
  chunk_data :: "nat \<Rightarrow> 'a option"
  chunk_prev :: ptr
  chunk_next :: ptr

type_synonym slot = "addr \<times> nat"

text \<open>
  The members of \<open>ChunkList<T, N, S>\<close>, together with the memory its member functions
  work on: the free store of the system allocator and the content of every block.
  Positions are \<open>uint32_t\<close>: naturals, with the wrap-around of \<open>++\<close> written out.
\<close>

record 'a ChunkList =
  mAllocator :: MemoryAllocator
  free_store :: sysmem
  heap :: "addr \<Rightarrow> 'a Chunk"
  mBeginChunk :: ptr
  mBeginPos :: nat
  mBackChunk :: ptr
  mBackPos :: nat
  mEndChunk :: ptr
  mEndPos :: nat

text \<open>
  The constructor of the allocator member: only the specialisation for \<open>S = 1\<close>
  initialises a member (\<open>mPtr\<close>); \<open>a0\<close> is what the members hold before.
\<close>

definition MemoryAllocator_ctor :: "nat \<Rightarrow> MemoryAllocator \<Rightarrow> MemoryAllocator" where
  "MemoryAllocator_ctor S a0 = (if S = 1 then a0\<lparr>mPtr := None\<rparr> else a0)"

definition ChunkList_ctor ::
  "nat \<Rightarrow> MemoryAllocator \<Rightarrow> sysmem \<Rightarrow> (addr \<Rightarrow> 'a Chunk) \<Rightarrow> fault + 'a ChunkList" where
  "ChunkList_ctor S a0 sys0 h0 =
     (case allocator_alloc S (MemoryAllocator_ctor S a0) sys0 of
        Inl f \<Rightarrow> Inl f
      | Inr (pchunk, a, sys1) \<Rightarrow>
          Inr \<lparr>mAllocator = a, free_store = sys1, heap = h0,
               mBeginChunk = pchunk, mBeginPos = 0,
               mBackChunk = None, mBackPos = 0,
               mEndChunk = pchunk, mEndPos = 0\<rparr>)"

text \<open>
  \<open>&front()\<close> and \<open>&back()\<close>: the address of the slot under the cursor. Forming it
  from a null chunk pointer is undefined.
\<close>

definition front_addr :: "'a ChunkList \<Rightarrow> fault + slot" where
  "front_addr cl = (case mBeginChunk cl of None \<Rightarrow> Inl NullDeref | Some c \<Rightarrow> Inr (c, mBeginPos cl))"

definition back_addr :: "'a ChunkList \<Rightarrow> fault + slot" where
  "back_addr cl = (case mBackChunk cl of None \<Rightarrow> Inl NullDeref | Some c \<Rightarrow> Inr (c, mBackPos cl))"

definition push :: "nat \<Rightarrow> nat \<Rightarrow> 'a ChunkList \<Rightarrow> fault + 'a ChunkList" where
  "push N S cl =
     (let cl1 = cl\<lparr>mBackChunk := mEndChunk cl, mBackPos := mEndPos cl\<rparr>;
          cl2 = cl1\<lparr>mEndPos := (mEndPos cl1 + 1) mod 2 ^ 32\<rparr>
      in if mEndPos cl2 \<noteq> N then Inr cl2
         else
           (case allocator_alloc S (mAllocator cl2) (free_store cl2) of
              Inl f \<Rightarrow> Inl f
            | Inr (sc, a, sys1) \<Rightarrow>
                (case mEndChunk cl2 of
                   None \<Rightarrow> Inl NullDeref
                 | Some ec \<Rightarrow>
                     (let h1 = (heap cl2)(ec := (heap cl2 ec)\<lparr>chunk_next := sc\<rparr>)
                      in case sc of
                           None \<Rightarrow> Inl NullDeref
                         | Some n \<Rightarrow>
                             (let h2 = h1(n := (h1 n)\<lparr>chunk_prev := mEndChunk cl2\<rparr>)
                              in Inr (cl2\<lparr>mAllocator := a, free_store := sys1, heap := h2,
                                          mEndChunk := chunk_next (h2 ec), mEndPos := 0\<rparr>))))))"

definition unpush :: "nat \<Rightarrow> nat \<Rightarrow> 'a ChunkList \<Rightarrow> fault + 'a ChunkList" where
  "unpush N S cl =
     (case (if mBackPos cl \<noteq> 0 then Inr (cl\<lparr>mBackPos := mBackPos cl - 1\<rparr>)
            else (case mBackChunk cl of
                    None \<Rightarrow> Inl NullDeref
                  | Some bc \<Rightarrow> Inr (cl\<lparr>mBackPos := N - 1, mBackChunk := chunk_prev (heap cl bc)\<rparr>))) of
        Inl f \<Rightarrow> Inl f
      | Inr cl1 \<Rightarrow>
          if mEndPos cl1 \<noteq> 0 then Inr (cl1\<lparr>mEndPos := mEndPos cl1 - 1\<rparr>)
          else
            (case mEndChunk cl1 of
               None \<Rightarrow> Inl NullDeref
             | Some ec \<Rightarrow>
                 (let cl2 = cl1\<lparr>mEndPos := N - 1, mEndChunk := chunk_prev (heap cl1 ec)\<rparr>
                  in case mEndChunk cl2 of
                       None \<Rightarrow> Inl NullDeref
                     | Some pc \<Rightarrow>
                         (case allocator_free S (chunk_next (heap cl2 pc)) (mAllocator cl2) (free_store cl2) of
                            Inl f \<Rightarrow> Inl f
                          | Inr (a, sys1) \<Rightarrow>
                              Inr (cl2\<lparr>mAllocator := a, free_store := sys1,
                                       heap := (heap cl2)(pc := (heap cl2 pc)\<lparr>chunk_next := None\<rparr>)\<rparr>)))))"

definition pop :: "nat \<Rightarrow> nat \<Rightarrow> 'a ChunkList \<Rightarrow> fault + 'a ChunkList" where
  "pop N S cl =
     (let cl1 = cl\<lparr>mBeginPos := (mBeginPos cl + 1) mod 2 ^ 32\<rparr>
      in if mBeginPos cl1 \<noteq> N then Inr cl1
         else
           (case mBeginChunk cl1 of
              None \<Rightarrow> Inl NullDeref
            | Some oc \<Rightarrow>
                (let cl2 = cl1\<lparr>mBeginChunk := chunk_next (heap cl1 oc)\<rparr>
                 in case mBeginChunk cl2 of
                      None \<Rightarrow> Inl NullDeref
                    | Some bc \<Rightarrow>
                        (let cl3 = cl2\<lparr>heap := (heap cl2)(bc := (heap cl2 bc)\<lparr>chunk_prev := None\<rparr>),
                                       mBeginPos := 0\<rparr>
                         in case allocator_free S (Some oc) (mAllocator cl3) (free_store cl3) of
                              Inl f \<Rightarrow> Inl f
                            | Inr (a, sys1) \<Rightarrow> Inr (cl3\<lparr>mAllocator := a, free_store := sys1\<rparr>)))))"

text \<open>
  The objects in the slots: placement construction, destruction, and the read of a live
  object that a move takes its value from.
\<close>

definition ctor :: "nat \<Rightarrow> slot \<Rightarrow> 'a \<Rightarrow> 'a ChunkList \<Rightarrow> fault + 'a ChunkList" where
  "ctor N m v cl =
     (case m of (c, i) \<Rightarrow>
        if N \<le> i then Inl OutOfBounds
        else Inr (cl\<lparr>heap := (heap cl)(c := (heap cl c)\<lparr>chunk_data := (chunk_data (heap cl c))(i := Some v)\<rparr>)\<rparr>))"

definition dtor :: "nat \<Rightarrow> slot \<Rightarrow> 'a ChunkList \<Rightarrow> fault + 'a ChunkList" where
  "dtor N m cl =
     (case m of (c, i) \<Rightarrow>
        if N \<le> i then Inl OutOfBounds
        else Inr (cl\<lparr>heap := (heap cl)(c := (heap cl c)\<lparr>chunk_data := (chunk_data (heap cl c))(i := None)\<rparr>)\<rparr>))"

definition load :: "nat \<Rightarrow> slot \<Rightarrow> 'a ChunkList \<Rightarrow> fault + 'a" where
  "load N m cl =
     (case m of (c, i) \<Rightarrow>
        if N \<le> i then Inl OutOfBounds
        else (case chunk_data (heap cl c) i of None \<Rightarrow> Inl UninitRead | Some v \<Rightarrow> Inr v))"

section \<open>Pipe\<close>

text \<open>
  The members of \<open>Pipe<T, N, S>\<close>. The four cursors are slot addresses, \<open>None\<close> being
  \<open>nullptr\<close>; \<open>mCommitEnd\<close> is the atomic one.
\<close>

record 'a Pipe =
  mChunkList :: "'a ChunkList"
  mLastFlushEnd :: "slot option"
  mReadEnd :: "slot option"
  mFlushEnd :: "slot option"
  mCommitEnd :: "slot option"

definition Pipe_ctor ::
  "nat \<Rightarrow> nat \<Rightarrow> MemoryAllocator \<Rightarrow> sysmem \<Rightarrow> (addr \<Rightarrow> 'a Chunk) \<Rightarrow> fault + 'a Pipe" where
  "Pipe_ctor N S a0 sys0 h0 =
     (case ChunkList_ctor S a0 sys0 h0 of
        Inl f \<Rightarrow> Inl f
      | Inr cl0 \<Rightarrow>
          (case push N S cl0 of
             Inl f \<Rightarrow> Inl f
           | Inr cl \<Rightarrow>
               (case back_addr cl of
                  Inl f \<Rightarrow> Inl f
                | Inr b \<Rightarrow>
                    Inr \<lparr>mChunkList = cl, mLastFlushEnd = Some b, mReadEnd = Some b,
                         mFlushEnd = Some b, mCommitEnd = Some b\<rparr>)))"

text \<open>
  \<open>write(incomplete_, args...)\<close>. The argument \<open>c\<close> is what the constructor of \<open>T\<close>
  does on \<open>args\<close>: \<open>Inr v\<close> builds \<open>v\<close>, \<open>Inl e\<close> throws \<open>e\<close>. The result names
  the exception that leaves \<open>write\<close>, if any, and the pipe as the call leaves it.
  (\<open>write\<close> is a keyword of Isabelle, hence the name \<open>Pipe_write\<close>.)
\<close>

definition Pipe_write :: "nat \<Rightarrow> nat \<Rightarrow> bool \<Rightarrow> 'e + 'a \<Rightarrow> 'a Pipe \<Rightarrow> fault + ('e option \<times> 'a Pipe)" where
  "Pipe_write N S incomplete c s =
     (case back_addr (mChunkList s) of
        Inl f \<Rightarrow> Inl f
      | Inr m \<Rightarrow>
          (case c of
             Inl e \<Rightarrow> Inr (Some e, s)
           | Inr v \<Rightarrow>
               (case ctor N m v (mChunkList s) of
                  Inl f \<Rightarrow> Inl f
                | Inr cl1 \<Rightarrow>
                    (case push N S cl1 of
                       Inl f \<Rightarrow> Inl f
                     | Inr cl2 \<Rightarrow>
                         if \<not> incomplete then
                           (case back_addr cl2 of
                              Inl f \<Rightarrow> Inl f
                            | Inr b \<Rightarrow> Inr (None, s\<lparr>mChunkList := cl2, mFlushEnd := Some b\<rparr>))
                         else Inr (None, s\<lparr>mChunkList := cl2\<rparr>)))))"

text \<open>
  \<open>unwrite(value_)\<close>: \<open>Some v\<close> when it returns true with \<open>v\<close> moved into
  \<open>value_\<close>, \<open>None\<close> when it returns false. The move assignment and the destructor of
  \<open>T\<close> are taken not to throw.
\<close>

definition unwrite :: "nat \<Rightarrow> nat \<Rightarrow> 'a Pipe \<Rightarrow> fault + ('a option \<times> 'a Pipe)" where
  "unwrite N S s =
     (case back_addr (mChunkList s) of
        Inl f \<Rightarrow> Inl f
      | Inr b \<Rightarrow>
          if mFlushEnd s = Some b then Inr (None, s)
          else
            (case unpush N S (mChunkList s) of
               Inl f \<Rightarrow> Inl f
             | Inr cl1 \<Rightarrow>
                 (case back_addr cl1 of
                    Inl f \<Rightarrow> Inl f
                  | Inr b1 \<Rightarrow>
                      (case load N b1 cl1 of
                         Inl f \<Rightarrow> Inl f
                       | Inr v \<Rightarrow>
                           (case dtor N b1 cl1 of
                              Inl f \<Rightarrow> Inl f
                            | Inr cl2 \<Rightarrow> Inr (Some v, s\<lparr>mChunkList := cl2\<rparr>))))))"

definition flush :: "'a Pipe \<Rightarrow> bool \<times> 'a Pipe" where
  "flush s =
     (if mLastFlushEnd s = mFlushEnd s then (True, s)
      else
        let (ok, commit, expected) =
              compare_exchange_strong (mCommitEnd s) (mLastFlushEnd s) (mFlushEnd s);
            s1 = s\<lparr>mCommitEnd := commit, mLastFlushEnd := expected\<rparr>
        in if ok then (True, s1\<lparr>mLastFlushEnd := mFlushEnd s1\<rparr>)
           else (False, s1\<lparr>mCommitEnd := mFlushEnd s1, mLastFlushEnd := mFlushEnd s1\<rparr>))"

definition check_read :: "'a Pipe \<Rightarrow> fault + (bool \<times> 'a Pipe)" where
  "check_read s =
     (case front_addr (mChunkList s) of
        Inl f \<Rightarrow> Inl f
      | Inr fr \<Rightarrow>
          if Some fr \<noteq> mReadEnd s \<and> mReadEnd s \<noteq> None then Inr (True, s)
          else
            let (ok, commit, expected) = compare_exchange_strong (mCommitEnd s) (mReadEnd s) None;
                s1 = s\<lparr>mCommitEnd := commit, mReadEnd := expected\<rparr>
            in if ok then Inr (False, s1) else Inr (True, s1))"

text \<open>
  \<open>read(value_)\<close>: \<open>Some v\<close> when it returns true with \<open>v\<close> moved into \<open>value_\<close>,
  \<open>None\<close> when it returns false.
\<close>

definition read :: "nat \<Rightarrow> nat \<Rightarrow> 'a Pipe \<Rightarrow> fault + ('a option \<times> 'a Pipe)" where
  "read N S s =
     (case check_read s of
        Inl f \<Rightarrow> Inl f
      | Inr (ok, s1) \<Rightarrow>
          if \<not> ok then Inr (None, s1)
          else
            (case front_addr (mChunkList s1) of
               Inl f \<Rightarrow> Inl f
             | Inr fr \<Rightarrow>
                 (case load N fr (mChunkList s1) of
                    Inl f \<Rightarrow> Inl f
                  | Inr v \<Rightarrow>
                      (case dtor N fr (mChunkList s1) of
                         Inl f \<Rightarrow> Inl f
                       | Inr cl1 \<Rightarrow>
                           (case pop N S cl1 of
                              Inl f \<Rightarrow> Inl f
                            | Inr cl2 \<Rightarrow> Inr (Some v, s1\<lparr>mChunkList := cl2\<rparr>))))))"

section \<open>Runs of a producer and a consumer\<close>

text \<open>
  A run is a sequence of calls on one pipe, each call taken as one step: the calls of the
  producer (\<open>write\<close>, \<open>unwrite\<close>, \<open>flush\<close>) and of the consumer (\<open>check_read\<close>,
  \<open>read\<close>) in the order in which they take effect. A call returns a value or, for
  \<open>write\<close>, lets the exception of the constructor through.
\<close>

datatype ('e, 'a) call = Write "'e + 'a" bool | Unwrite | Flush | CheckRead | Read

datatype ('e, 'a) ret = Wrote | Threw 'e | Unwrote "'a option" | Flushed bool | Checked bool | Got "'a option"

definition step :: "nat \<Rightarrow> nat \<Rightarrow> ('e, 'a) call \<Rightarrow> 'a Pipe \<Rightarrow> fault + (('e, 'a) ret \<times> 'a Pipe)" where
  "step N S c s =
     (case c of
        Write x incomplete \<Rightarrow>
          (case Pipe_write N S incomplete x s of
             Inl f \<Rightarrow> Inl f
           | Inr (None, s1) \<Rightarrow> Inr (Wrote, s1)
           | Inr (Some e, s1) \<Rightarrow> Inr (Threw e, s1))
      | Unwrite \<Rightarrow>
          (case unwrite N S s of Inl f \<Rightarrow> Inl f | Inr (r, s1) \<Rightarrow> Inr (Unwrote r, s1))
      | Flush \<Rightarrow> (case flush s of (r, s1) \<Rightarrow> Inr (Flushed r, s1))
      | CheckRead \<Rightarrow>
          (case check_read s of Inl f \<Rightarrow> Inl f | Inr (r, s1) \<Rightarrow> Inr (Checked r, s1))
      | Read \<Rightarrow>
          (case read N S s of Inl f \<Rightarrow> Inl f | Inr (r, s1) \<Rightarrow> Inr (Got r, s1)))"

text \<open>The trace of a run: what each call returned and the pipe it left.\<close>

fun run :: "nat \<Rightarrow> nat \<Rightarrow> ('e, 'a) call list \<Rightarrow> 'a Pipe \<Rightarrow> fault + (('e, 'a) ret \<times> 'a Pipe) list" where
  "run N S [] s = Inr []"
| "run N S (c # cs) s =
     (case step N S c s of
        Inl f \<Rightarrow> Inl f
      | Inr (r, s1) \<Rightarrow>
          (case run N S cs s1 of
             Inl f \<Rightarrow> Inl f
           | Inr tr \<Rightarrow> Inr ((r, s1) # tr)))"

text \<open>The pipe before call \<open>j\<close> of a run that starts in \<open>s0\<close> and has the trace \<open>tr\<close>.\<close>

definition before :: "'a Pipe \<Rightarrow> (('e, 'a) ret \<times> 'a Pipe) list \<Rightarrow> nat \<Rightarrow> 'a Pipe" where
  "before s0 tr j = (if j = 0 then s0 else snd (tr ! (j - 1)))"


text \<open>The values the calls of a run returned, in order.\<close>

definition returned :: "nat \<Rightarrow> nat \<Rightarrow> ('e, 'a) call list \<Rightarrow> 'a Pipe \<Rightarrow> fault + ('e, 'a) ret list" where
  "returned N S cs s = (case run N S cs s of Inl f \<Rightarrow> Inl f | Inr tr \<Rightarrow> Inr (map fst tr))"



section \<open>A small pipe for the concrete evaluations\<close>

text \<open>
  Chunks of four slots, a cache of one block, a free store of the blocks 0 to 3 and
  memory with nothing in it: \<open>pipe0\<close> is the pipe its constructor builds there
  (lemma \<open>Pipe_ctor_pipe0\<close>).
\<close>

definition chunk0 :: "int Chunk" where
  "chunk0 = \<lparr>chunk_data = (\<lambda>_. None), chunk_prev = None, chunk_next = None\<rparr>"

definition list0 :: "int ChunkList" where
  "list0 = \<lparr>mAllocator = cache0, free_store = [1, 2, 3], heap = (\<lambda>_. chunk0),
            mBeginChunk = Some 0, mBeginPos = 0,
            mBackChunk = Some 0, mBackPos = 0,
            mEndChunk = Some 0, mEndPos = 1\<rparr>"

definition pipe0 :: "int Pipe" where
  "pipe0 = \<lparr>mChunkList = list0, mLastFlushEnd = Some (0, 0), mReadEnd = Some (0, 0),
            mFlushEnd = Some (0, 0), mCommitEnd = Some (0, 0)\<rparr>"

text \<open>
  The list of \<open>pipe0\<close> after three more slots are reserved (\<open>list3\<close>, its end cursor on
  the last slot of chunk 0), and after a fourth, which takes chunk 1 from the free store
  (\<open>list4\<close>).
\<close>

definition list3 :: "int ChunkList" where
  "list3 = list0\<lparr>mBackPos := 2, mEndPos := 3\<rparr>"

definition list4 :: "int ChunkList" where
  "list4 = \<lparr>mAllocator = cache0, free_store = [2, 3],
            heap = (\<lambda>_. chunk0)(0 := chunk0\<lparr>chunk_next := Some 1\<rparr>, 1 := chunk0\<lparr>chunk_prev := Some 0\<rparr>),
            mBeginChunk = Some 0, mBeginPos = 0,
            mBackChunk = Some 0, mBackPos = 3,
            mEndChunk = Some 1, mEndPos = 0\<rparr>"


section \<open>The run of the demonstration program\<close>

text \<open>
  \<open>main\<close> builds a \<open>Pipe<int>\<close> (\<open>N = 128\<close>, \<open>S = 1\<close>), writes 0 to 1023 as
  incomplete, takes 512 values back, writes \<open>-1\<close> as complete, flushes, and reads until
  \<open>read\<close> returns false.
\<close>

definition writes_1024 :: "(unit, int) call list" where
  "writes_1024 = map (\<lambda>i. Write (Inr (int i)) True) [0..<1024]"

definition unwrites_512 :: "(unit, int) call list" where
  "unwrites_512 = replicate 512 Unwrite"

definition publish :: "(unit, int) call list" where
  "publish = [Write (Inr (- 1)) False, Flush]"

definition reads_514 :: "(unit, int) call list" where
  "reads_514 = replicate 514 Read"

text \<open>
  The layout of such a run in memory. The chunks are the first blocks of the free store
  \<open>sys0\<close>, in order; slot \<open>i\<close> of the list, counted from the first slot of the first
  chunk, is slot \<open>i mod 128\<close> of chunk \<open>i div 128\<close>. A list has the shape
  \<open>(r, k)\<close> when its front cursor is on slot \<open>r\<close>, its back cursor on slot \<open>k\<close>,
  its end cursor on slot \<open>k + 1\<close>, the slots from \<open>r\<close> up to \<open>k\<close> hold the values
  \<open>val\<close>, and the chunks from that of \<open>r\<close> to that of \<open>k + 1\<close> are linked both ways.
\<close>

definition slot_of :: "addr list \<Rightarrow> nat \<Rightarrow> slot" where
  "slot_of sys0 i = (sys0 ! (i div 128), i mod 128)"

definition shape :: "addr list \<Rightarrow> (nat \<Rightarrow> int) \<Rightarrow> nat \<Rightarrow> nat \<Rightarrow> int ChunkList \<Rightarrow> bool" where
  "shape sys0 val r k cl =
     (mBeginChunk cl = Some (sys0 ! (r div 128)) \<and> mBeginPos cl = r mod 128 \<and>
      mBackChunk cl = Some (sys0 ! (k div 128)) \<and> mBackPos cl = k mod 128 \<and>
      mEndChunk cl = Some (sys0 ! (Suc k div 128)) \<and> mEndPos cl = Suc k mod 128 \<and>
      (\<forall>i. r \<le> i \<and> i < k \<longrightarrow>
         chunk_data (heap cl (sys0 ! (i div 128))) (i mod 128) = Some (val i)) \<and>
      (\<forall>j. r div 128 \<le> j \<and> j < Suc k div 128 \<longrightarrow>
         chunk_next (heap cl (sys0 ! j)) = Some (sys0 ! Suc j) \<and>
         chunk_prev (heap cl (sys0 ! Suc j)) = Some (sys0 ! j)))"

text \<open>
  While the producer only writes, the cache of the allocator is empty and the free store
  is what is left of \<open>sys0\<close> after the chunks in use.
\<close>

definition unused :: "addr list \<Rightarrow> nat \<Rightarrow> int ChunkList \<Rightarrow> bool" where
  "unused sys0 k cl =
     (mPtr (mAllocator cl) = None \<and> free_store cl = drop (Suc (Suc k div 128)) sys0)"

text \<open>
  The pipe while the producer has \<open>k\<close> values in it and has published nothing: the
  values are \<open>0, \<dots>, k - 1\<close>, the three private cursors are on the first slot, and
  \<open>mCommitEnd\<close> is on the first slot or, once the consumer has slept, null.
\<close>

definition producing :: "addr list \<Rightarrow> nat \<Rightarrow> int Pipe \<Rightarrow> bool" where
  "producing sys0 k s =
     (shape sys0 int 0 k (mChunkList s) \<and>
      mLastFlushEnd s = Some (slot_of sys0 0) \<and> mReadEnd s = Some (slot_of sys0 0) \<and>
      mFlushEnd s = Some (slot_of sys0 0) \<and>
      (mCommitEnd s = Some (slot_of sys0 0) \<or> mCommitEnd s = None))"

text \<open>
  The pipe while the consumer reads what was published: the values \<open>0, \<dots>, 511\<close> and
  then \<open>-1\<close>, of which the first \<open>r\<close> are read; the frontier is slot 513.
\<close>

definition final_val :: "nat \<Rightarrow> int" where
  "final_val i = (if i = 512 then - 1 else int i)"

definition consuming :: "addr list \<Rightarrow> nat \<Rightarrow> int Pipe \<Rightarrow> bool" where
  "consuming sys0 r s =
     (shape sys0 final_val r 513 (mChunkList s) \<and>
      mCommitEnd s = Some (slot_of sys0 513) \<and>
      (mReadEnd s = Some (slot_of sys0 513) \<or> (r = 0 \<and> mReadEnd s = Some (slot_of sys0 0))))"

section \<open>Properties of the allocators\<close>

text \<open>
  In a sequential call the compare-and-swap of each loop compares the counter with the
  value just loaded from it, so each loop runs its body once.
\<close>

lemma alloc_loop_seq:
  "alloc_loop S a p (mHead a) =
     (if mHead a = mTail a then Inr (p, a)
      else if two_S S = 0 then Inl DivByZero
      else if S \<le> (if mHead a < S then mHead a else mHead a - S) then Inl OutOfBounds
      else Inr (mQueueBuffer a (if mHead a < S then mHead a else mHead a - S),
                a\<lparr>mHead := wrap (index_bits S) (mHead a + 1) mod two_S S\<rparr>))"
  by (subst alloc_loop.simps) (simp add: compare_exchange_strong_def Let_def)

lemma free_loop_seq:
  "free_loop S a p (mTail a) =
     (if wrap (index_bits S) (mHead a + S) = mTail a \<or> wrap (index_bits S) (mTail a + S) = mHead a
      then Inr (Some p, a)
      else if two_S S = 0 then Inl DivByZero
      else if S \<le> (if mTail a < S then mTail a else mTail a - S) then Inl OutOfBounds
      else Inr (None, a\<lparr>mTail := wrap (index_bits S) (mTail a + 1) mod two_S S,
                          mQueueBuffer := (mQueueBuffer a)((if mTail a < S then mTail a else mTail a - S) := Some p)\<rparr>))"
  by (subst free_loop.simps) (simp add: compare_exchange_strong_def Let_def)

lemma allocator_free_holds:
  assumes "allocator_free S (Some m) a sys = Inr (a2, sys2)"
  shows "holds_block S a2 sys2 m"
proof -
  consider "S = 0" | "S = 1" | "1 < S" by linarith
  then show ?thesis
  proof cases
    case 1
    with assms show ?thesis
      by (auto simp: allocator_free_def MemoryAllocator0_free_def holds_block_def)
  next
    case 2
    with assms show ?thesis
      by (auto simp: allocator_free_def MemoryAllocator1_free_def exchange_def holds_block_def
          Let_def split: option.splits)
  next
    case 3
    with assms show ?thesis
      by (auto simp: allocator_free_def MemoryAllocator_free_def free_loop_seq
          MemoryAllocator0_free_def holds_block_def list_ex_iff split: if_splits)
  qed
qed

text \<open>
  Claim C7, as the source has it. \<open>free(nullptr)\<close> changes nothing for \<open>S = 0\<close> and
  for every \<open>S > 1\<close>: neither the cached slots, nor the counters, nor the free store.
  For \<open>S = 1\<close> it changes nothing when the cache slot is empty; when the slot holds a
  block, \<open>free(nullptr)\<close> empties the slot and hands that block to the system
  allocator (the destructor of the specialisation calls it for this).
\<close>

theorem free_nullptr:
  "(S \<noteq> 1 \<longrightarrow> allocator_free S None a sys = Inr (a, sys)) \<and>
   (mPtr a = None \<longrightarrow> allocator_free 1 None a sys = Inr (a, sys)) \<and>
   (\<forall>p. mPtr a = Some p \<longrightarrow> allocator_free 1 None a sys = Inr (a\<lparr>mPtr := None\<rparr>, p # sys))"
  by (simp add: allocator_free_def MemoryAllocator_free_def MemoryAllocator1_free_def
      exchange_def MemoryAllocator0_free_def)

theorem free_nullptr_witness:
  "allocator_free 0 None (cache0\<lparr>mPtr := Some 7\<rparr>) [3] = Inr (cache0\<lparr>mPtr := Some 7\<rparr>, [3]) \<and>
   allocator_free 2 None (cache0\<lparr>mTail := 1, mQueueBuffer := (\<lambda>_. Some 5)\<rparr>) [3]
     = Inr (cache0\<lparr>mTail := 1, mQueueBuffer := (\<lambda>_. Some 5)\<rparr>, [3]) \<and>
   allocator_free 1 None cache0 [3] = Inr (cache0, [3]) \<and>
   allocator_free 1 None (cache0\<lparr>mPtr := Some 7\<rparr>) [3] = Inr (cache0, [7, 3])"
  using free_nullptr [of 0 "cache0\<lparr>mPtr := Some 7\<rparr>" "[3]"]
    free_nullptr [of 2 "cache0\<lparr>mTail := 1, mQueueBuffer := (\<lambda>_. Some 5)\<rparr>" "[3]"]
    free_nullptr [of 1 cache0 "[3]"]
    free_nullptr [of 1 "cache0\<lparr>mPtr := Some 7\<rparr>" "[3]"]
  by (simp add: cache0_def)

text \<open>
  Claim C7 as stated fails for \<open>S = 1\<close>: with block 7 in the cache slot,
  \<open>free(nullptr)\<close> clears the slot and releases block 7 to the free store.
\<close>

theorem free_nullptr_counterexample:
  "allocator_free 1 None (cache0\<lparr>mPtr := Some 7\<rparr>) [] = Inr (cache0, [7]) \<and>
   allocator_free 1 None (cache0\<lparr>mPtr := Some 7\<rparr>) [] \<noteq> Inr (cache0\<lparr>mPtr := Some 7\<rparr>, [])"
  by (simp add: allocator_free_def MemoryAllocator1_free_def exchange_def
      MemoryAllocator0_free_def cache0_def)

text \<open>
  The modulus of the counters. Up to \<open>S = UINT32_MAX / 2\<close> the expression \<open>2 * S\<close>
  is the number \<open>2 S\<close>; above, where the counters are 64 bits wide, it is still
  computed on 32 bits and has lost \<open>2^32\<close>.
\<close>

lemma two_S_exact: "S \<le> UINT32_MAX div 2 \<Longrightarrow> two_S S = 2 * S"
  by (simp add: two_S_def wrap_def UINT32_MAX_def)

lemma two_S_wraps: "UINT32_MAX div 2 < S \<Longrightarrow> S \<le> UINT32_MAX \<Longrightarrow> two_S S = 2 * S - 4294967296"
  unfolding two_S_def wrap_def UINT32_MAX_def
  by (simp add: mod_if)

lemma index_bits_widen: "index_bits S = 64 \<longleftrightarrow> 2 ^ 32 \<le> 2 * S"
  by (simp add: index_bits_def UINT32_MAX_def)

lemma alloc_advances_mod_2S:
  assumes "1 < S" "S \<le> UINT32_MAX div 2" "mHead a < 2 * S" "mHead a \<noteq> mTail a"
  shows "alloc_loop S a None (mHead a) =
           Inr (mQueueBuffer a (if mHead a < S then mHead a else mHead a - S),
                a\<lparr>mHead := (mHead a + 1) mod (2 * S)\<rparr>)"
proof -
  have "mHead a + 1 < 2 ^ 32"
    using assms by (simp add: UINT32_MAX_def)
  then have "wrap (index_bits S) (mHead a + 1) = mHead a + 1"
    using assms by (simp add: wrap_def index_bits_def)
  moreover have "two_S S = 2 * S" "two_S S \<noteq> 0"
    using assms by (simp_all add: two_S_exact)
  moreover have "\<not> S \<le> (if mHead a < S then mHead a else mHead a - S)"
    using assms by auto
  ultimately show ?thesis
    using assms by (simp add: alloc_loop_seq)
qed

text \<open>
  Claim C8 at \<open>S = 2^31 + 1\<close>, an argument for which the counters are 64 bits wide.
  The expression \<open>2 * S\<close> is 2 there, not \<open>2^32 + 2\<close>: the second \<open>free\<close> wraps
  \<open>mTail\<close> from 1 back to 0, the cache with two blocks in it looks empty
  (\<open>mHead = mTail\<close>) and \<open>alloc\<close> takes block 20 from the system. At \<open>S = 2^31\<close>
  the expression is 0 and the first \<open>free\<close> divides by zero.
\<close>

theorem wrap_modulus_S_2147483649:
  "index_bits 2147483649 = 64 \<and> two_S 2147483649 = 2 \<and>
   MemoryAllocator_free 2147483649 (Some 10) cache0 []
     = Inr (cache0\<lparr>mTail := 1, mQueueBuffer := (\<lambda>_. None)(0 := Some 10)\<rparr>, []) \<and>
   MemoryAllocator_free 2147483649 (Some 11)
       (cache0\<lparr>mTail := 1, mQueueBuffer := (\<lambda>_. None)(0 := Some 10)\<rparr>) []
     = Inr (cache0\<lparr>mTail := 0, mQueueBuffer := (\<lambda>_. None)(0 := Some 10, 1 := Some 11)\<rparr>, []) \<and>
   MemoryAllocator_alloc 2147483649
       (cache0\<lparr>mTail := 0, mQueueBuffer := (\<lambda>_. None)(0 := Some 10, 1 := Some 11)\<rparr>) [20]
     = Inr (Some 20, cache0\<lparr>mTail := 0, mQueueBuffer := (\<lambda>_. None)(0 := Some 10, 1 := Some 11)\<rparr>, []) \<and>
   MemoryAllocator_free 2147483648 (Some 10) cache0 [] = Inl DivByZero"
  by (simp add: MemoryAllocator_free_def MemoryAllocator_alloc_def free_loop.simps
      alloc_loop.simps compare_exchange_strong_def Let_def cache0_def two_S_def wrap_def
      index_bits_def UINT32_MAX_def MemoryAllocator0_free_def MemoryAllocator0_alloc_def)

text \<open>
  Claim C10. Let the underlying \<open>MemoryAllocator::alloc\<close> return \<open>memory\<close>. If it is
  \<open>nullptr\<close>, \<open>ObjectAllocator::alloc\<close> returns \<open>nullptr\<close>, and it returns
  \<open>nullptr\<close> in no other case. If the constructor builds the object, the block is
  returned with the object in it. If the constructor throws \<open>e\<close>, the block is passed
  to \<open>free\<close> of the same allocator, whose state is the one \<open>alloc\<close> leaves behind,
  with \<open>e\<close> rethrown; the block is then in the cache or back in the free store.
\<close>

theorem ObjectAllocator_alloc_ctor_throws:
  assumes "allocator_alloc S a sys = Inr (memory, a1, sys1)"
  shows "(memory = None \<longrightarrow> ObjectAllocator_alloc S c a sys objs = Inr (Inr None, a1, sys1, objs)) \<and>
    (\<forall>m v. memory = Some m \<and> c = Inr v \<longrightarrow>
            ObjectAllocator_alloc S c a sys objs = Inr (Inr (Some m), a1, sys1, objs(m := Some v))) \<and>
    (\<forall>m e. memory = Some m \<and> c = Inl e \<longrightarrow>
            (case allocator_free S (Some m) a1 sys1 of
               Inl f \<Rightarrow> ObjectAllocator_alloc S c a sys objs = Inl f
             | Inr (a2, sys2) \<Rightarrow>
                 ObjectAllocator_alloc S c a sys objs = Inr (Inl e, a2, sys2, objs) \<and>
                 holds_block S a2 sys2 m)) \<and>
    (\<forall>st. ObjectAllocator_alloc S c a sys objs = Inr (Inr None, st) \<longrightarrow> memory = None)"
  using assms
  by (auto simp: ObjectAllocator_alloc_def allocator_free_holds split: sum.splits option.splits)

theorem ObjectAllocator_alloc_ctor_throws_witness:
  "allocator_alloc 1 cache0 [4, 5] = Inr (Some 4, cache0, [5]) \<and>
   ObjectAllocator_alloc 1 (Inl (1::nat) :: nat + nat) cache0 [4, 5] (\<lambda>_. None)
     = Inr (Inl 1, cache0\<lparr>mPtr := Some 4\<rparr>, [5], (\<lambda>_. None)) \<and>
   holds_block 1 (cache0\<lparr>mPtr := Some 4\<rparr>) [5] 4 \<and>
   allocator_alloc 1 cache0 [] = Inr (None, cache0, []) \<and>
   ObjectAllocator_alloc 1 (Inl (1::nat) :: nat + nat) cache0 [] (\<lambda>_. None)
     = Inr (Inr None, cache0, [], (\<lambda>_. None))"
proof -
  have h1: "allocator_alloc 1 cache0 [4, 5] = Inr (Some 4, cache0, [5])"
    by (simp add: allocator_alloc_def MemoryAllocator1_alloc_def exchange_def
        MemoryAllocator0_alloc_def cache0_def)
  have h2: "allocator_alloc 1 cache0 [] = Inr (None, cache0, [])"
    by (simp add: allocator_alloc_def MemoryAllocator1_alloc_def exchange_def
        MemoryAllocator0_alloc_def cache0_def)
  have f: "allocator_free 1 (Some 4) cache0 [5] = Inr (cache0\<lparr>mPtr := Some 4\<rparr>, [5])"
    by (simp add: allocator_free_def MemoryAllocator1_free_def exchange_def cache0_def)
  show ?thesis
    using ObjectAllocator_alloc_ctor_throws [OF h1, of "Inl (1::nat) :: nat + nat" "\<lambda>_. None"]
      ObjectAllocator_alloc_ctor_throws [OF h2, of "Inl (1::nat) :: nat + nat" "\<lambda>_. None"]
      h1 h2
    by (simp add: f del: One_nat_def)
qed

section \<open>Properties of the chunk list\<close>

lemma Pipe_ctor_pipe0: "Pipe_ctor 4 1 cache0 [0, 1, 2, 3] (\<lambda>_. chunk0) = Inr pipe0"
  by (simp add: Pipe_ctor_def ChunkList_ctor_def MemoryAllocator_ctor_def allocator_alloc_def
      MemoryAllocator1_alloc_def exchange_def MemoryAllocator0_alloc_def push_def back_addr_def
      pipe0_def list0_def cache0_def Let_def)

text \<open>\<open>push\<close> inside a chunk and at the end of a chunk, as equations.\<close>

lemma push_inside:
  assumes "(mEndPos cl + 1) mod 2 ^ 32 \<noteq> N"
  shows "push N S cl = Inr (cl\<lparr>mBackChunk := mEndChunk cl, mBackPos := mEndPos cl,
                                 mEndPos := (mEndPos cl + 1) mod 2 ^ 32\<rparr>)"
  using assms by (simp add: push_def Let_def)

lemma push_boundary:
  assumes "(mEndPos cl + 1) mod 2 ^ 32 = N"
    and "mEndChunk cl = Some ec"
    and "allocator_alloc S (mAllocator cl) (free_store cl) = Inr (Some sc, a, sys1)"
  shows "push N S cl =
           Inr (cl\<lparr>mBackChunk := Some ec, mBackPos := mEndPos cl,
                    mAllocator := a, free_store := sys1,
                    heap := ((heap cl)(ec := (heap cl ec)\<lparr>chunk_next := Some sc\<rparr>))
                               (sc := (((heap cl)(ec := (heap cl ec)\<lparr>chunk_next := Some sc\<rparr>)) sc)
                                        \<lparr>chunk_prev := Some ec\<rparr>),
                    mEndChunk := Some sc, mEndPos := 0\<rparr>)"
  using assms by (simp add: push_def Let_def)

lemma push_result:
  assumes "push N S cl = Inr cl'"
  shows "mBackChunk cl' = mEndChunk cl \<and> mBackPos cl' = mEndPos cl \<and>
     mBeginChunk cl' = mBeginChunk cl \<and> mBeginPos cl' = mBeginPos cl \<and>
     ((mEndPos cl + 1) mod 2 ^ 32 \<noteq> N \<longrightarrow>
        mEndChunk cl' = mEndChunk cl \<and> mEndPos cl' = (mEndPos cl + 1) mod 2 ^ 32 \<and>
        heap cl' = heap cl \<and> mAllocator cl' = mAllocator cl \<and> free_store cl' = free_store cl) \<and>
     ((mEndPos cl + 1) mod 2 ^ 32 = N \<longrightarrow>
        (\<exists>ec sc. mEndChunk cl = Some ec \<and>
           allocator_alloc S (mAllocator cl) (free_store cl)
             = Inr (Some sc, mAllocator cl', free_store cl') \<and>
           mEndChunk cl' = Some sc \<and> mEndPos cl' = 0 \<and>
           chunk_next (heap cl' ec) = Some sc \<and> chunk_prev (heap cl' sc) = Some ec \<and>
           (\<forall>c. chunk_data (heap cl' c) = chunk_data (heap cl c)) \<and>
           (\<forall>c. c \<noteq> ec \<and> c \<noteq> sc \<longrightarrow> heap cl' c = heap cl c)))"
  using assms
  by (auto simp: push_def Let_def split: if_splits option.splits sum.splits)

lemma push_Inr_iff:
  "(\<exists>cl'. push N S cl = Inr cl') \<longleftrightarrow>
     ((mEndPos cl + 1) mod 2 ^ 32 \<noteq> N \<or>
      (\<exists>ec sc a sys1. mEndChunk cl = Some ec \<and>
         allocator_alloc S (mAllocator cl) (free_store cl) = Inr (Some sc, a, sys1)))"
  by (auto simp: push_def Let_def split: sum.splits option.splits)

lemma unpush_result:
  assumes "unpush N S cl = Inr cl'"
  shows "mBeginChunk cl' = mBeginChunk cl \<and> mBeginPos cl' = mBeginPos cl \<and>
     (mBackPos cl \<noteq> 0 \<longrightarrow> mBackChunk cl' = mBackChunk cl \<and> mBackPos cl' = mBackPos cl - 1) \<and>
     (mBackPos cl = 0 \<longrightarrow>
        (\<exists>bc. mBackChunk cl = Some bc \<and> mBackChunk cl' = chunk_prev (heap cl bc)) \<and>
        mBackPos cl' = N - 1) \<and>
     (mEndPos cl \<noteq> 0 \<longrightarrow>
        mEndChunk cl' = mEndChunk cl \<and> mEndPos cl' = mEndPos cl - 1 \<and> heap cl' = heap cl \<and>
        mAllocator cl' = mAllocator cl \<and> free_store cl' = free_store cl) \<and>
     (mEndPos cl = 0 \<longrightarrow>
        (\<exists>ec pc. mEndChunk cl = Some ec \<and> chunk_prev (heap cl ec) = Some pc \<and>
           mEndChunk cl' = Some pc \<and> mEndPos cl' = N - 1 \<and>
           chunk_next (heap cl' pc) = None \<and>
           (\<forall>c. chunk_data (heap cl' c) = chunk_data (heap cl c) \<and>
                chunk_prev (heap cl' c) = chunk_prev (heap cl c)) \<and>
           (\<forall>c. c \<noteq> pc \<longrightarrow> heap cl' c = heap cl c) \<and>
           allocator_free S (chunk_next (heap cl pc)) (mAllocator cl) (free_store cl)
             = Inr (mAllocator cl', free_store cl') \<and>
           (chunk_next (heap cl pc) = Some ec \<longrightarrow>
              holds_block S (mAllocator cl') (free_store cl') ec)))"
  using assms
  by (auto simp: unpush_def Let_def allocator_free_holds split: if_splits option.splits sum.splits)

lemma unpush_Inr_iff:
  "(\<exists>cl'. unpush N S cl = Inr cl') \<longleftrightarrow>
     ((mBackPos cl \<noteq> 0 \<or> mBackChunk cl \<noteq> None) \<and>
      (mEndPos cl \<noteq> 0 \<or>
       (\<exists>ec pc a sys1. mEndChunk cl = Some ec \<and> chunk_prev (heap cl ec) = Some pc \<and>
          allocator_free S (chunk_next (heap cl pc)) (mAllocator cl) (free_store cl) = Inr (a, sys1))))"
  by (auto simp: unpush_def Let_def split: sum.splits option.splits)

text \<open>
  Claim C6. \<open>push\<close> makes the old end slot the back slot and moves \<open>mEndPos\<close> on by
  one. When the new \<open>mEndPos\<close> is not \<open>N\<close> nothing else changes; when it is \<open>N\<close>,
  a chunk \<open>sc\<close> is taken from the allocator, becomes the \<open>next\<close> of the old end chunk
  \<open>ec\<close> with \<open>ec\<close> as its \<open>prev\<close>, and the end cursor is \<open>(sc, 0)\<close>; no slot
  content changes. \<open>push\<close> returns unless that allocation fails (the source dereferences
  the null pointer then). \<open>unpush\<close> steps the back cursor and the end cursor back by
  one slot each, into the \<open>prev\<close> chunk at position \<open>N - 1\<close> when the position
  was 0. When \<open>mEndPos\<close> was not 0 nothing else changes; when it was 0, the \<open>next\<close>
  link of the new end chunk \<open>pc\<close> is cleared and the chunk it pointed to is passed to
  \<open>free\<close> of the allocator: the old end chunk, when the list is linked
  (\<open>pc->next = ec\<close>), which is then in the cache or the free store.
\<close>

theorem push_unpush_chunk_boundary:
  "(\<forall>cl'. push N S cl = Inr cl' \<longrightarrow>
      mBackChunk cl' = mEndChunk cl \<and> mBackPos cl' = mEndPos cl \<and>
      mBeginChunk cl' = mBeginChunk cl \<and> mBeginPos cl' = mBeginPos cl \<and>
      ((mEndPos cl + 1) mod 2 ^ 32 \<noteq> N \<longrightarrow>
         mEndChunk cl' = mEndChunk cl \<and> mEndPos cl' = (mEndPos cl + 1) mod 2 ^ 32 \<and>
         heap cl' = heap cl \<and> mAllocator cl' = mAllocator cl \<and> free_store cl' = free_store cl) \<and>
      ((mEndPos cl + 1) mod 2 ^ 32 = N \<longrightarrow>
         (\<exists>ec sc. mEndChunk cl = Some ec \<and>
            allocator_alloc S (mAllocator cl) (free_store cl)
              = Inr (Some sc, mAllocator cl', free_store cl') \<and>
            mEndChunk cl' = Some sc \<and> mEndPos cl' = 0 \<and>
            chunk_next (heap cl' ec) = Some sc \<and> chunk_prev (heap cl' sc) = Some ec \<and>
            (\<forall>c. chunk_data (heap cl' c) = chunk_data (heap cl c)) \<and>
            (\<forall>c. c \<noteq> ec \<and> c \<noteq> sc \<longrightarrow> heap cl' c = heap cl c)))) \<and>
   ((\<exists>cl'. push N S cl = Inr cl') \<longleftrightarrow>
      ((mEndPos cl + 1) mod 2 ^ 32 \<noteq> N \<or>
       (\<exists>ec sc a sys1. mEndChunk cl = Some ec \<and>
          allocator_alloc S (mAllocator cl) (free_store cl) = Inr (Some sc, a, sys1)))) \<and>
   (\<forall>cl'. unpush N S cl = Inr cl' \<longrightarrow>
      mBeginChunk cl' = mBeginChunk cl \<and> mBeginPos cl' = mBeginPos cl \<and>
      (mBackPos cl \<noteq> 0 \<longrightarrow> mBackChunk cl' = mBackChunk cl \<and> mBackPos cl' = mBackPos cl - 1) \<and>
      (mBackPos cl = 0 \<longrightarrow>
         (\<exists>bc. mBackChunk cl = Some bc \<and> mBackChunk cl' = chunk_prev (heap cl bc)) \<and>
         mBackPos cl' = N - 1) \<and>
      (mEndPos cl \<noteq> 0 \<longrightarrow>
         mEndChunk cl' = mEndChunk cl \<and> mEndPos cl' = mEndPos cl - 1 \<and> heap cl' = heap cl \<and>
         mAllocator cl' = mAllocator cl \<and> free_store cl' = free_store cl) \<and>
      (mEndPos cl = 0 \<longrightarrow>
         (\<exists>ec pc. mEndChunk cl = Some ec \<and> chunk_prev (heap cl ec) = Some pc \<and>
            mEndChunk cl' = Some pc \<and> mEndPos cl' = N - 1 \<and>
            chunk_next (heap cl' pc) = None \<and>
            (\<forall>c. chunk_data (heap cl' c) = chunk_data (heap cl c) \<and>
                 chunk_prev (heap cl' c) = chunk_prev (heap cl c)) \<and>
            (\<forall>c. c \<noteq> pc \<longrightarrow> heap cl' c = heap cl c) \<and>
            allocator_free S (chunk_next (heap cl pc)) (mAllocator cl) (free_store cl)
              = Inr (mAllocator cl', free_store cl') \<and>
            (chunk_next (heap cl pc) = Some ec \<longrightarrow>
               holds_block S (mAllocator cl') (free_store cl') ec)))) \<and>
   ((\<exists>cl'. unpush N S cl = Inr cl') \<longleftrightarrow>
      ((mBackPos cl \<noteq> 0 \<or> mBackChunk cl \<noteq> None) \<and>
       (mEndPos cl \<noteq> 0 \<or>
        (\<exists>ec pc a sys1. mEndChunk cl = Some ec \<and> chunk_prev (heap cl ec) = Some pc \<and>
           allocator_free S (chunk_next (heap cl pc)) (mAllocator cl) (free_store cl) = Inr (a, sys1)))))"
  using push_result [of N S cl] push_Inr_iff [of N S cl]
    unpush_result [of N S cl] unpush_Inr_iff [of N S cl]
  by blast

theorem push_unpush_chunk_boundary_witness:
  "push 4 1 list0 = Inr (list0\<lparr>mBackPos := 1, mEndPos := 2\<rparr>) \<and>
   push 4 1 list3 = Inr list4 \<and>
   chunk_next (heap list4 0) = Some 1 \<and> chunk_prev (heap list4 1) = Some 0 \<and>
   unpush 4 1 list4 =
     Inr (list4\<lparr>mBackPos := 2, mEndPos := 3, mEndChunk := Some 0,
                mAllocator := cache0\<lparr>mPtr := Some 1\<rparr>,
                heap := (heap list4)(0 := chunk0)\<rparr>) \<and>
   holds_block 1 (cache0\<lparr>mPtr := Some 1\<rparr>) [2, 3] 1 \<and>
   mBackChunk list4 = mEndChunk list3 \<and> mBackPos list4 = mEndPos list3"
proof -
  have a: "allocator_alloc 1 cache0 [1, 2, 3] = Inr (Some 1, cache0, [2, 3])"
    by (simp add: allocator_alloc_def MemoryAllocator1_alloc_def exchange_def
        MemoryAllocator0_alloc_def cache0_def)
  have f: "allocator_free 1 (Some 1) cache0 [2, 3] = Inr (cache0\<lparr>mPtr := Some 1\<rparr>, [2, 3])"
    by (simp add: allocator_free_def MemoryAllocator1_free_def exchange_def cache0_def)
  have p0: "push 4 1 list0 = Inr (list0\<lparr>mBackPos := 1, mEndPos := 2\<rparr>)"
    by (simp add: push_def list0_def Let_def)
  have p3: "push 4 1 list3 = Inr list4"
    by (simp add: push_def list3_def list0_def list4_def Let_def a del: One_nat_def)
  have u4: "unpush 4 1 list4 =
     Inr (list4\<lparr>mBackPos := 2, mEndPos := 3, mEndChunk := Some 0,
                mAllocator := cache0\<lparr>mPtr := Some 1\<rparr>,
                heap := (heap list4)(0 := chunk0)\<rparr>)"
    by (simp add: unpush_def list4_def Let_def f chunk0_def del: One_nat_def)
  have hb: "holds_block 1 (cache0\<lparr>mPtr := Some 1\<rparr>) [2, 3] 1"
    by (simp add: holds_block_def)
  have l4: "chunk_next (heap list4 0) = Some 1" "chunk_prev (heap list4 1) = Some 0"
    by (simp_all add: list4_def)
  note push4 = push_unpush_chunk_boundary [THEN conjunct1, rule_format, OF p3]
  note unpush4 = push_unpush_chunk_boundary [THEN conjunct2, THEN conjunct2, THEN conjunct1,
      rule_format, OF u4]
  have b: "mBackChunk list4 = mEndChunk list3" "mBackPos list4 = mEndPos list3"
    using push4 by blast+
  have e: "mBeginChunk (list4\<lparr>mBackPos := 2, mEndPos := 3, mEndChunk := Some 0,
                mAllocator := cache0\<lparr>mPtr := Some 1\<rparr>,
                heap := (heap list4)(0 := chunk0)\<rparr>) = mBeginChunk list4"
    using unpush4 by blast
  show ?thesis
    using p0 p3 u4 hb l4 b e by simp
qed

section \<open>Properties of the pipe operations\<close>

text \<open>
  Claim C1. \<open>flush\<close> with \<open>mLastFlushEnd = mFlushEnd\<close> returns true and changes
  nothing. Otherwise, when \<open>mCommitEnd\<close> holds \<open>mLastFlushEnd\<close> the compare-and-swap
  succeeds: \<open>mCommitEnd\<close> and \<open>mLastFlushEnd\<close> become \<open>mFlushEnd\<close> and the result is
  true; when it holds anything else the compare-and-swap fails: \<open>mFlushEnd\<close> is stored
  into \<open>mCommitEnd\<close>, \<open>mLastFlushEnd\<close> becomes \<open>mFlushEnd\<close> and the result is false.
  No other member changes.
\<close>

theorem flush_cases:
  "(mLastFlushEnd s = mFlushEnd s \<longrightarrow> flush s = (True, s)) \<and>
   (mLastFlushEnd s \<noteq> mFlushEnd s \<and> mCommitEnd s = mLastFlushEnd s \<longrightarrow>
      flush s = (True, s\<lparr>mCommitEnd := mFlushEnd s, mLastFlushEnd := mFlushEnd s\<rparr>)) \<and>
   (mLastFlushEnd s \<noteq> mFlushEnd s \<and> mCommitEnd s \<noteq> mLastFlushEnd s \<longrightarrow>
      flush s = (False, s\<lparr>mCommitEnd := mFlushEnd s, mLastFlushEnd := mFlushEnd s\<rparr>))"
  by (simp add: flush_def compare_exchange_strong_def)

theorem flush_cases_witness:
  "flush pipe0 = (True, pipe0) \<and>
   flush (pipe0\<lparr>mFlushEnd := Some (0, 1)\<rparr>)
     = (True, pipe0\<lparr>mFlushEnd := Some (0, 1), mCommitEnd := Some (0, 1), mLastFlushEnd := Some (0, 1)\<rparr>) \<and>
   flush (pipe0\<lparr>mFlushEnd := Some (0, 1), mCommitEnd := None\<rparr>)
     = (False, pipe0\<lparr>mFlushEnd := Some (0, 1), mCommitEnd := Some (0, 1), mLastFlushEnd := Some (0, 1)\<rparr>)"
  using flush_cases [of pipe0] flush_cases [of "pipe0\<lparr>mFlushEnd := Some (0, 1)\<rparr>"]
    flush_cases [of "pipe0\<lparr>mFlushEnd := Some (0, 1), mCommitEnd := None\<rparr>"]
  by (simp add: pipe0_def)

text \<open>
  The branches of \<open>check_read\<close>. With \<open>fr\<close> the address of the front slot: when \<open>fr\<close> differs from
  \<open>mReadEnd\<close> and \<open>mReadEnd\<close> is not null, \<open>check_read\<close> returns true and changes
  nothing. Otherwise it compares \<open>mCommitEnd\<close> with \<open>mReadEnd\<close>: when they are equal
  \<open>mCommitEnd\<close> becomes null and the result is false; when they differ, \<open>mReadEnd\<close>
  takes the value of \<open>mCommitEnd\<close> and the result is true.
\<close>

theorem check_read_cases:
  assumes "front_addr (mChunkList s) = Inr fr"
  shows "(Some fr \<noteq> mReadEnd s \<and> mReadEnd s \<noteq> None \<longrightarrow> check_read s = Inr (True, s)) \<and>
   ((Some fr = mReadEnd s \<or> mReadEnd s = None) \<and> mCommitEnd s = mReadEnd s \<longrightarrow>
      check_read s = Inr (False, s\<lparr>mCommitEnd := None\<rparr>)) \<and>
   ((Some fr = mReadEnd s \<or> mReadEnd s = None) \<and> mCommitEnd s \<noteq> mReadEnd s \<longrightarrow>
      check_read s = Inr (True, s\<lparr>mReadEnd := mCommitEnd s\<rparr>))"
  using assms by (auto simp add: check_read_def compare_exchange_strong_def)

theorem check_read_cases_witness:
  "front_addr (mChunkList pipe0) = Inr (0, 0) \<and>
   check_read (pipe0\<lparr>mReadEnd := Some (0, 2), mCommitEnd := Some (0, 2)\<rparr>)
     = Inr (True, pipe0\<lparr>mReadEnd := Some (0, 2), mCommitEnd := Some (0, 2)\<rparr>) \<and>
   check_read pipe0 = Inr (False, pipe0\<lparr>mCommitEnd := None\<rparr>) \<and>
   check_read (pipe0\<lparr>mCommitEnd := Some (0, 2)\<rparr>)
     = Inr (True, pipe0\<lparr>mCommitEnd := Some (0, 2), mReadEnd := Some (0, 2)\<rparr>)"
proof -
  have h: "front_addr (mChunkList pipe0) = Inr (0, 0)"
    by (simp add: front_addr_def pipe0_def list0_def)
  have h1: "front_addr (mChunkList (pipe0\<lparr>mReadEnd := Some (0, 2), mCommitEnd := Some (0, 2)\<rparr>)) = Inr (0, 0)"
    and h2: "front_addr (mChunkList (pipe0\<lparr>mCommitEnd := Some (0, 2)\<rparr>)) = Inr (0, 0)"
    using h by simp_all
  show ?thesis
    using check_read_cases [OF h1] check_read_cases [OF h] check_read_cases [OF h2] h
    by (simp add: pipe0_def)
qed

text \<open>
  Claim C2 at the fresh pipe, into which nothing was written: the first \<open>check_read\<close>
  returns false and leaves \<open>mCommitEnd\<close> null; in the second the exchange fails on that
  null, \<open>mReadEnd\<close> takes it, and the result is true, though no frontier was published
  and no object is in the front slot.
\<close>

theorem check_read_twice:
  "Pipe_ctor 4 1 cache0 [0, 1, 2, 3] (\<lambda>_. chunk0) = Inr pipe0 \<and>
   check_read pipe0 = Inr (False, pipe0\<lparr>mCommitEnd := None\<rparr>) \<and>
   check_read (pipe0\<lparr>mCommitEnd := None\<rparr>) =
     Inr (True, pipe0\<lparr>mCommitEnd := None, mReadEnd := None\<rparr>) \<and>
   returned 4 1 [CheckRead, CheckRead] pipe0 = Inr [Checked False, Checked True :: (unit, int) ret] \<and>
   load 4 (0, 0) (mChunkList pipe0) = Inl UninitRead"
proof (intro conjI)
  show "Pipe_ctor 4 1 cache0 [0, 1, 2, 3] (\<lambda>_. chunk0) = Inr pipe0"
    by (rule Pipe_ctor_pipe0)
  show c1: "check_read pipe0 = Inr (False, pipe0\<lparr>mCommitEnd := None\<rparr>)"
    by (simp add: check_read_def front_addr_def compare_exchange_strong_def pipe0_def list0_def)
  show c2: "check_read (pipe0\<lparr>mCommitEnd := None\<rparr>) =
      Inr (True, pipe0\<lparr>mCommitEnd := None, mReadEnd := None\<rparr>)"
    by (simp add: check_read_def front_addr_def compare_exchange_strong_def pipe0_def list0_def)
  show "returned 4 1 [CheckRead, CheckRead] pipe0 = Inr [Checked False, Checked True :: (unit, int) ret]"
    by (simp add: returned_def step_def c1 c2)
  show "load 4 (0, 0) (mChunkList pipe0) = Inl UninitRead"
    by (simp add: load_def pipe0_def list0_def chunk0_def)
qed




text \<open>
  Claim C9. When the constructor of \<open>T\<close> throws \<open>e\<close> inside \<open>write\<close>, \<open>e\<close> leaves
  \<open>write\<close> and the pipe is the one before the call: no cursor has moved, the chunk
  list is untouched, and the rest of any run goes on as if the call had not been made.
\<close>

theorem write_ctor_throws:
  assumes "back_addr (mChunkList s) = Inr b"
  shows "Pipe_write N S incomplete (Inl e) s = Inr (Some e, s) \<and>
         step N S (Write (Inl e) incomplete) s = Inr (Threw e, s) \<and>
         run N S (Write (Inl e) incomplete # cs) s =
           (case run N S cs s of Inl f \<Rightarrow> Inl f | Inr tr \<Rightarrow> Inr ((Threw e, s) # tr))"
  using assms by (simp add: Pipe_write_def step_def)

theorem write_ctor_throws_witness:
  "back_addr (mChunkList pipe0) = Inr (0, 0) \<and>
   Pipe_write 4 1 False (Inl (1::nat)) pipe0 = Inr (Some 1, pipe0) \<and>
   step 4 1 (Write (Inl (1::nat)) False) pipe0 = Inr (Threw 1, pipe0) \<and>
   run 4 1 [Write (Inl (1::nat)) False, Read] pipe0
     = Inr [(Threw 1, pipe0), (Got None, pipe0\<lparr>mCommitEnd := None\<rparr>)]"
proof -
  have b: "back_addr (mChunkList pipe0) = Inr (0, 0)"
    by (simp add: back_addr_def pipe0_def list0_def)
  have r: "run 4 1 [Read :: (nat, int) call] pipe0 = Inr [(Got None, pipe0\<lparr>mCommitEnd := None\<rparr>)]"
    by (simp add: step_def read_def check_read_def front_addr_def compare_exchange_strong_def
        pipe0_def list0_def)
  show ?thesis
    using write_ctor_throws [OF b, of 4 1 False "1::nat" "[Read]"] b r
    by simp
qed

section \<open>Runs: the cursors and the sleep signal\<close>









lemma run_length: "run N S cs s = Inr tr \<Longrightarrow> length tr = length cs"
  by (induction cs arbitrary: s tr) (auto split: sum.splits)









section \<open>The run of the demonstration program, step by step\<close>

lemma chunk_distinct:
  assumes "distinct (take 9 sys0)" "9 \<le> length sys0" "a < 9" "b < 9"
  shows "sys0 ! a = sys0 ! b \<longleftrightarrow> a = b"
proof -
  have "take 9 sys0 ! a = sys0 ! a" "take 9 sys0 ! b = sys0 ! b"
    using assms by simp_all
  moreover have "a < length (take 9 sys0)" "b < length (take 9 sys0)"
    using assms by simp_all
  ultimately show ?thesis
    using assms(1) nth_eq_iff_index_eq by metis
qed

lemma slot_distinct:
  assumes "distinct (take 9 sys0)" "9 \<le> length sys0" "i < 1152" "j < 1152"
  shows "slot_of sys0 i = slot_of sys0 j \<longleftrightarrow> i = j"
proof
  assume "slot_of sys0 i = slot_of sys0 j"
  then have c: "sys0 ! (i div 128) = sys0 ! (j div 128)" and m: "i mod 128 = j mod 128"
    by (simp_all add: slot_of_def)
  have "i div 128 < 9" "j div 128 < 9"
    using assms by simp_all
  with c have "i div 128 = j div 128"
    using chunk_distinct [OF assms(1,2)] by blast
  with m show "i = j"
    by (metis div_mult_mod_eq)
qed simp

lemma alloc_unused:
  assumes "unused sys0 k cl" "Suc (Suc k div 128) < length sys0"
  shows "allocator_alloc 1 (mAllocator cl) (free_store cl)
           = Inr (Some (sys0 ! Suc (Suc k div 128)), mAllocator cl, drop (Suc (Suc (Suc k div 128))) sys0)"
proof -
  have "drop (Suc (Suc k div 128)) sys0 = sys0 ! Suc (Suc k div 128) # drop (Suc (Suc (Suc k div 128))) sys0"
    using assms(2) by (simp add: Cons_nth_drop_Suc)
  moreover have "mAllocator cl\<lparr>mPtr := None\<rparr> = mAllocator cl"
    using assms(1) by (simp add: unused_def)
  ultimately show ?thesis
    using assms(1)
    by (simp add: unused_def allocator_alloc_def MemoryAllocator1_alloc_def exchange_def
        MemoryAllocator0_alloc_def del: One_nat_def)
qed


lemma Suc_inside:
  "Suc n mod 128 \<noteq> 0 \<Longrightarrow> Suc n div 128 = n div 128 \<and> Suc n mod 128 = Suc (n mod 128)"
  by (simp add: div_Suc mod_Suc split: if_splits)

lemma Suc_boundary:
  "Suc n mod 128 = 0 \<Longrightarrow> Suc n div 128 = Suc (n div 128) \<and> n mod 128 = 127"
  by (simp add: div_Suc mod_Suc split: if_splits)


lemma div128_le: "(i::nat) \<le> k \<Longrightarrow> i div 128 \<le> k div 128"
  by (rule div_le_mono)

lemma slot_cases:
  assumes "distinct (take 9 (sys0 :: addr list))" "9 \<le> length sys0" "i < 1152" "k < 1152" "i \<noteq> k"
  shows "sys0 ! (i div 128) \<noteq> sys0 ! (k div 128) \<or> i mod 128 \<noteq> k mod 128"
  using slot_distinct [OF assms(1-4)] assms(5) by (auto simp: slot_of_def)

lemma write_step_list:
  assumes d: "distinct (take 9 sys0)" "9 \<le> length sys0"
    and sh: "shape sys0 val r k cl" and un: "Suc (Suc k) mod 128 = 0 \<Longrightarrow> unused sys0 k cl"
    and k: "k < 1024"
  shows "\<exists>cl1 cl2. ctor 128 (slot_of sys0 k) v cl = Inr cl1 \<and> push 128 1 cl1 = Inr cl2 \<and>
           shape sys0 (val(k := v)) r (Suc k) cl2 \<and>
           (unused sys0 k cl \<longrightarrow> unused sys0 (Suc k) cl2)"
proof -
  let ?c = "sys0 ! (k div 128)"
  let ?h1 = "(heap cl)(?c := (heap cl ?c)\<lparr>chunk_data := (chunk_data (heap cl ?c))(k mod 128 := Some v)\<rparr>)"
  define cl1 where "cl1 = cl\<lparr>heap := ?h1\<rparr>"
  have c1: "ctor 128 (slot_of sys0 k) v cl = Inr cl1"
    by (simp add: ctor_def slot_of_def cl1_def)
  have data1: "chunk_data (heap cl1 (sys0 ! (i div 128))) (i mod 128) = Some ((val(k := v)) i)"
    if "r \<le> i" "i < Suc k" for i
  proof (cases "i = k")
    case True
    then show ?thesis by (simp add: cl1_def)
  next
    case False
    with that have "i < k" by simp
    with sh that have "chunk_data (heap cl (sys0 ! (i div 128))) (i mod 128) = Some (val i)"
      by (simp add: shape_def)
    moreover have "sys0 ! (i div 128) \<noteq> ?c \<or> i mod 128 \<noteq> k mod 128"
      using slot_cases [OF d, of i k] k \<open>i < k\<close> by simp
    ultimately show ?thesis
      using False by (auto simp: cl1_def)
  qed
  have next1: "chunk_next (heap cl1 x) = chunk_next (heap cl x)"
    and prev1: "chunk_prev (heap cl1 x) = chunk_prev (heap cl x)" for x
    by (simp_all add: cl1_def)
  have e: "mEndChunk cl1 = Some (sys0 ! (Suc k div 128))" "mEndPos cl1 = Suc k mod 128"
    using sh by (simp_all add: shape_def cl1_def)
  have lt: "Suc k mod 128 + 1 < 2 ^ 32"
    by (rule less_trans [of _ 129]) simp_all
  show ?thesis
  proof (cases "Suc (Suc k) mod 128 = 0")
    case False
    note a = Suc_inside [OF False]
    have "Suc (Suc k) mod 128 < 128"
      by simp
    then have "Suc (Suc k mod 128) < 128"
      using a by simp
    then have ne: "(mEndPos cl1 + 1) mod 2 ^ 32 \<noteq> 128"
      using e by simp
    define cl2 where "cl2 = cl1\<lparr>mBackChunk := mEndChunk cl1, mBackPos := mEndPos cl1,
                                 mEndPos := (mEndPos cl1 + 1) mod 2 ^ 32\<rparr>"
    have p: "push 128 1 cl1 = Inr cl2"
      unfolding cl2_def using ne by (rule push_inside)
    have "shape sys0 (val(k := v)) r (Suc k) cl2"
      unfolding shape_def
    proof (intro conjI allI impI)
      show "mBeginChunk cl2 = Some (sys0 ! (r div 128))" "mBeginPos cl2 = r mod 128"
        using sh by (simp_all add: shape_def cl2_def cl1_def)
      show "mBackChunk cl2 = Some (sys0 ! (Suc k div 128))" "mBackPos cl2 = Suc k mod 128"
        using e by (simp_all add: cl2_def)
      show "mEndChunk cl2 = Some (sys0 ! (Suc (Suc k) div 128))"
        using e a by (simp add: cl2_def)
      show "mEndPos cl2 = Suc (Suc k) mod 128"
        using e a lt by (simp add: cl2_def)
    next
      fix i assume "r \<le> i \<and> i < Suc k"
      then show "chunk_data (heap cl2 (sys0 ! (i div 128))) (i mod 128) = Some ((val(k := v)) i)"
        using data1 [of i] by (simp add: cl2_def)
    next
      fix j assume "r div 128 \<le> j \<and> j < Suc (Suc k) div 128"
      then have "r div 128 \<le> j \<and> j < Suc k div 128" using a by simp
      with sh have "chunk_next (heap cl (sys0 ! j)) = Some (sys0 ! Suc j) \<and>
            chunk_prev (heap cl (sys0 ! Suc j)) = Some (sys0 ! j)"
        by (simp add: shape_def)
      then show "chunk_next (heap cl2 (sys0 ! j)) = Some (sys0 ! Suc j)"
        "chunk_prev (heap cl2 (sys0 ! Suc j)) = Some (sys0 ! j)"
        using next1 prev1 by (simp_all add: cl2_def)
    qed
    moreover have "unused sys0 k cl \<longrightarrow> unused sys0 (Suc k) cl2"
      using a by (simp add: unused_def cl2_def cl1_def)
    ultimately show ?thesis
      using c1 p by blast
  next
    case True
    note b = Suc_boundary [OF True]
    let ?e = "Suc k div 128"
    let ?ec = "sys0 ! ?e"
    let ?sc = "sys0 ! Suc ?e"
    have "Suc (Suc k) div 128 \<le> 1025 div 128"
      using k by (intro div_le_mono) simp
    then have bound: "Suc ?e < 9"
      using b by simp
    have eq: "(mEndPos cl1 + 1) mod 2 ^ 32 = 128"
      using b e by simp
    have un1: "unused sys0 k cl1"
      using un [OF True] by (simp add: unused_def cl1_def)
    have al: "allocator_alloc 1 (mAllocator cl1) (free_store cl1)
           = Inr (Some ?sc, mAllocator cl1, drop (Suc (Suc ?e)) sys0)"
      using alloc_unused [OF un1] bound d(2) by simp
    let ?h2 = "(heap cl1)(?ec := (heap cl1 ?ec)\<lparr>chunk_next := Some ?sc\<rparr>)"
    define cl2 where "cl2 = cl1\<lparr>mBackChunk := Some ?ec, mBackPos := mEndPos cl1,
                    mAllocator := mAllocator cl1, free_store := drop (Suc (Suc ?e)) sys0,
                    heap := ?h2(?sc := (?h2 ?sc)\<lparr>chunk_prev := Some ?ec\<rparr>),
                    mEndChunk := Some ?sc, mEndPos := 0\<rparr>"
    have p: "push 128 1 cl1 = Inr cl2"
      unfolding cl2_def using eq e(1) al by (rule push_boundary)
    have data2: "chunk_data (heap cl2 x) = chunk_data (heap cl1 x)" for x
      by (simp add: cl2_def)
    have ne: "?ec \<noteq> ?sc"
      using chunk_distinct [OF d, of ?e "Suc ?e"] bound by simp
    have "shape sys0 (val(k := v)) r (Suc k) cl2"
      unfolding shape_def
    proof (intro conjI allI impI)
      show "mBeginChunk cl2 = Some (sys0 ! (r div 128))" "mBeginPos cl2 = r mod 128"
        using sh by (simp_all add: shape_def cl2_def cl1_def)
      show "mBackChunk cl2 = Some (sys0 ! (Suc k div 128))" "mBackPos cl2 = Suc k mod 128"
        using e by (simp_all add: cl2_def)
      show "mEndChunk cl2 = Some (sys0 ! (Suc (Suc k) div 128))"
        using b by (simp add: cl2_def)
      show "mEndPos cl2 = Suc (Suc k) mod 128"
        using True by (simp add: cl2_def)
    next
      fix i assume "r \<le> i \<and> i < Suc k"
      then have "chunk_data (heap cl1 (sys0 ! (i div 128))) (i mod 128) = Some ((val(k := v)) i)"
        using data1 [of i] by simp
      then show "chunk_data (heap cl2 (sys0 ! (i div 128))) (i mod 128) = Some ((val(k := v)) i)"
        by (simp only: data2)
    next
      fix j assume j: "r div 128 \<le> j \<and> j < Suc (Suc k) div 128"
      then have j9: "j < 9" "Suc j < 9 \<or> j = ?e" "j \<le> ?e"
        using b bound by auto
      show "chunk_next (heap cl2 (sys0 ! j)) = Some (sys0 ! Suc j)"
      proof (cases "j = ?e")
        case True
        then show ?thesis by (simp add: cl2_def)
      next
        case False
        with j b have jl: "r div 128 \<le> j \<and> j < ?e" by simp
        with sh have "chunk_next (heap cl (sys0 ! j)) = Some (sys0 ! Suc j)"
          by (simp add: shape_def)
        moreover have "sys0 ! j \<noteq> ?ec"
          using chunk_distinct [OF d, of j ?e] jl bound by simp
        ultimately show ?thesis
          using next1 by (auto simp: cl2_def)
      qed
      show "chunk_prev (heap cl2 (sys0 ! Suc j)) = Some (sys0 ! j)"
      proof (cases "j = ?e")
        case True
        then show ?thesis by (simp add: cl2_def)
      next
        case False
        with j b have jl: "r div 128 \<le> j \<and> j < ?e" by simp
        with sh have "chunk_prev (heap cl (sys0 ! Suc j)) = Some (sys0 ! j)"
          by (simp add: shape_def)
        moreover have "sys0 ! Suc j \<noteq> ?sc"
          using chunk_distinct [OF d, of "Suc j" "Suc ?e"] jl bound by simp
        ultimately show ?thesis
          using prev1 by (auto simp: cl2_def)
      qed
    qed
    moreover have "unused sys0 (Suc k) cl2"
      using un [OF True] b by (simp add: unused_def cl2_def cl1_def)
    ultimately show ?thesis
      using c1 p by blast
  qed
qed

lemma allocator_free_1: "\<exists>a sys1. allocator_free 1 p a0 sys0 = Inr (a, sys1)"
  by (simp add: allocator_free_def MemoryAllocator1_free_def exchange_def split: option.splits)

lemma unwrite_step_list:
  assumes d: "distinct (take 9 sys0)" "9 \<le> length sys0"
    and sh: "shape sys0 val r (Suc k) cl" and k: "k < 1024" and r: "r \<le> k"
  shows "\<exists>cl1 cl2. unpush 128 1 cl = Inr cl1 \<and> back_addr cl1 = Inr (slot_of sys0 k) \<and>
           load 128 (slot_of sys0 k) cl1 = Inr (val k) \<and>
           dtor 128 (slot_of sys0 k) cl1 = Inr cl2 \<and> shape sys0 val r k cl2"
proof -
  let ?b = "Suc k div 128"
  let ?e = "Suc (Suc k) div 128"
  note flds = sh [unfolded shape_def]
  have bk: "mBackChunk cl = Some (sys0 ! ?b)" "mBackPos cl = Suc k mod 128"
    and endc: "mEndChunk cl = Some (sys0 ! ?e)" "mEndPos cl = Suc (Suc k) mod 128"
    using flds by simp_all
  have link: "chunk_next (heap cl (sys0 ! j)) = Some (sys0 ! Suc j)"
      "chunk_prev (heap cl (sys0 ! Suc j)) = Some (sys0 ! j)"
    if "r div 128 \<le> j" "j < ?e" for j
    using flds that by simp_all
  have data: "chunk_data (heap cl (sys0 ! (i div 128))) (i mod 128) = Some (val i)"
    if "r \<le> i" "i < Suc k" for i
    using flds that by simp
  have "?e \<le> 1025 div 128"
    using k by (intro div_le_mono) simp
  then have e9: "?e < 9" by simp
  have rk: "r div 128 \<le> k div 128"
    using r by (rule div_le_mono)
  have kb: "k div 128 \<le> ?b" "?b \<le> ?e"
    by (simp_all add: div_le_mono)
  \<comment> \<open>the new back cursor\<close>
  have prev_b: "Suc k mod 128 = 0 \<Longrightarrow> chunk_prev (heap cl (sys0 ! ?b)) = Some (sys0 ! (k div 128))"
  proof -
    assume z: "Suc k mod 128 = 0"
    note bd = Suc_boundary [OF z]
    have "k div 128 < ?e" using bd kb by simp
    from link(2) [OF rk this] bd show ?thesis by simp
  qed
  \<comment> \<open>the new end cursor\<close>
  have prev_e: "Suc (Suc k) mod 128 = 0 \<Longrightarrow> chunk_prev (heap cl (sys0 ! ?e)) = Some (sys0 ! ?b)"
  proof -
    assume z: "Suc (Suc k) mod 128 = 0"
    note bd = Suc_boundary [OF z]
    have "r div 128 \<le> ?b" "?b < ?e" using bd rk kb by simp_all
    from link(2) [OF this] bd show ?thesis by simp
  qed
  have "\<exists>cl1. unpush 128 1 cl = Inr cl1"
    unfolding unpush_Inr_iff
    using bk endc prev_e allocator_free_1 by auto
  then obtain cl1 where u: "unpush 128 1 cl = Inr cl1" ..
  note res = unpush_result [OF u]
  have begin1: "mBeginChunk cl1 = mBeginChunk cl" "mBeginPos cl1 = mBeginPos cl"
    using res by simp_all
  have back1: "mBackChunk cl1 = Some (sys0 ! (k div 128))" "mBackPos cl1 = k mod 128"
  proof -
    show "mBackChunk cl1 = Some (sys0 ! (k div 128))"
    proof (cases "Suc k mod 128 = 0")
      case True
      with res bk prev_b show ?thesis by auto
    next
      case False
      with res bk Suc_inside [OF False] show ?thesis by auto
    qed
    show "mBackPos cl1 = k mod 128"
    proof (cases "Suc k mod 128 = 0")
      case True
      with res bk Suc_boundary [OF True] show ?thesis by auto
    next
      case False
      with res bk Suc_inside [OF False] show ?thesis by auto
    qed
  qed
  have end1: "mEndChunk cl1 = Some (sys0 ! ?b)" "mEndPos cl1 = Suc k mod 128"
  proof -
    show "mEndChunk cl1 = Some (sys0 ! ?b)"
    proof (cases "Suc (Suc k) mod 128 = 0")
      case True
      with res endc prev_e show ?thesis by auto
    next
      case False
      with res endc Suc_inside [OF False] show ?thesis by auto
    qed
    show "mEndPos cl1 = Suc k mod 128"
    proof (cases "Suc (Suc k) mod 128 = 0")
      case True
      with res endc Suc_boundary [OF True] show ?thesis by auto
    next
      case False
      with res endc Suc_inside [OF False] show ?thesis by auto
    qed
  qed
  have data1: "chunk_data (heap cl1 c) = chunk_data (heap cl c)"
    and prev1: "chunk_prev (heap cl1 c) = chunk_prev (heap cl c)" for c
    using res by (cases "mEndPos cl = 0"; auto)+
  have next1: "chunk_next (heap cl1 (sys0 ! j)) = chunk_next (heap cl (sys0 ! j))" if "j < ?b" for j
  proof (cases "Suc (Suc k) mod 128 = 0")
    case True
    have "sys0 ! j \<noteq> sys0 ! ?b"
      using chunk_distinct [OF d, of j ?b] that kb e9 by simp
    with res endc prev_e True show ?thesis by auto
  next
    case False
    with res endc show ?thesis by auto
  qed
  have b1: "back_addr cl1 = Inr (slot_of sys0 k)"
    using back1 by (simp add: back_addr_def slot_of_def)
  have l1: "load 128 (slot_of sys0 k) cl1 = Inr (val k)"
    using data [of k] r data1 by (simp add: load_def slot_of_def)
  let ?c = "sys0 ! (k div 128)"
  define cl2 where "cl2 = cl1\<lparr>heap := (heap cl1)(?c := (heap cl1 ?c)\<lparr>chunk_data := (chunk_data (heap cl1 ?c))(k mod 128 := None)\<rparr>)\<rparr>"
  have d1: "dtor 128 (slot_of sys0 k) cl1 = Inr cl2"
    by (simp add: dtor_def slot_of_def cl2_def)
  have "shape sys0 val r k cl2"
    unfolding shape_def
  proof (intro conjI allI impI)
    show "mBeginChunk cl2 = Some (sys0 ! (r div 128))" "mBeginPos cl2 = r mod 128"
      using begin1 flds by (simp_all add: cl2_def)
    show "mBackChunk cl2 = Some (sys0 ! (k div 128))" "mBackPos cl2 = k mod 128"
      using back1 by (simp_all add: cl2_def)
    show "mEndChunk cl2 = Some (sys0 ! (Suc k div 128))" "mEndPos cl2 = Suc k mod 128"
      using end1 by (simp_all add: cl2_def)
  next
    fix i assume i: "r \<le> i \<and> i < k"
    then have "chunk_data (heap cl1 (sys0 ! (i div 128))) (i mod 128) = Some (val i)"
      using data [of i] data1 by simp
    moreover have "sys0 ! (i div 128) \<noteq> ?c \<or> i mod 128 \<noteq> k mod 128"
      using slot_cases [OF d, of i k] k i by simp
    ultimately show "chunk_data (heap cl2 (sys0 ! (i div 128))) (i mod 128) = Some (val i)"
      by (auto simp: cl2_def)
  next
    fix j assume j: "r div 128 \<le> j \<and> j < Suc k div 128"
    then have "j < ?e" using kb by linarith
    have "chunk_next (heap cl2 x) = chunk_next (heap cl1 x)"
      "chunk_prev (heap cl2 x) = chunk_prev (heap cl1 x)" for x
      by (simp_all add: cl2_def)
    with link [OF _ \<open>j < ?e\<close>] j next1 [of j] prev1 [of "sys0 ! Suc j"]
    show "chunk_next (heap cl2 (sys0 ! j)) = Some (sys0 ! Suc j)"
      "chunk_prev (heap cl2 (sys0 ! Suc j)) = Some (sys0 ! j)"
      by simp_all
  qed
  with u b1 l1 d1 show ?thesis by blast
qed

lemma pop_result:
  assumes "pop N S cl = Inr cl'"
  shows "mBackChunk cl' = mBackChunk cl \<and> mBackPos cl' = mBackPos cl \<and>
     mEndChunk cl' = mEndChunk cl \<and> mEndPos cl' = mEndPos cl \<and>
     (\<forall>c. chunk_data (heap cl' c) = chunk_data (heap cl c) \<and>
          chunk_next (heap cl' c) = chunk_next (heap cl c)) \<and>
     ((mBeginPos cl + 1) mod 2 ^ 32 \<noteq> N \<longrightarrow>
        mBeginChunk cl' = mBeginChunk cl \<and> mBeginPos cl' = (mBeginPos cl + 1) mod 2 ^ 32 \<and>
        heap cl' = heap cl \<and> mAllocator cl' = mAllocator cl \<and> free_store cl' = free_store cl) \<and>
     ((mBeginPos cl + 1) mod 2 ^ 32 = N \<longrightarrow>
        (\<exists>oc bc. mBeginChunk cl = Some oc \<and> chunk_next (heap cl oc) = Some bc \<and>
           mBeginChunk cl' = Some bc \<and> mBeginPos cl' = 0 \<and>
           chunk_prev (heap cl' bc) = None \<and>
           (\<forall>c. c \<noteq> bc \<longrightarrow> heap cl' c = heap cl c) \<and>
           allocator_free S (Some oc) (mAllocator cl) (free_store cl)
             = Inr (mAllocator cl', free_store cl')))"
  using assms
  by (auto simp: pop_def Let_def split: if_splits option.splits sum.splits)

lemma pop_Inr_iff:
  "(\<exists>cl'. pop N S cl = Inr cl') \<longleftrightarrow>
     ((mBeginPos cl + 1) mod 2 ^ 32 \<noteq> N \<or>
      (\<exists>oc bc a sys1. mBeginChunk cl = Some oc \<and> chunk_next (heap cl oc) = Some bc \<and>
         allocator_free S (Some oc) (mAllocator cl) (free_store cl) = Inr (a, sys1)))"
  by (auto simp: pop_def Let_def split: sum.splits option.splits)

lemma read_step_list:
  assumes d: "distinct (take 9 sys0)" "9 \<le> length sys0"
    and sh: "shape sys0 val r k cl" and r: "r < k" and k: "k \<le> 1024"
  shows "\<exists>cl1 cl2. front_addr cl = Inr (slot_of sys0 r) \<and>
           load 128 (slot_of sys0 r) cl = Inr (val r) \<and>
           dtor 128 (slot_of sys0 r) cl = Inr cl1 \<and> pop 128 1 cl1 = Inr cl2 \<and>
           shape sys0 val (Suc r) k cl2"
proof -
  let ?e = "Suc k div 128"
  note flds = sh [unfolded shape_def]
  have link: "chunk_next (heap cl (sys0 ! j)) = Some (sys0 ! Suc j)"
      "chunk_prev (heap cl (sys0 ! Suc j)) = Some (sys0 ! j)"
    if "r div 128 \<le> j" "j < ?e" for j
    using flds that by simp_all
  have data: "chunk_data (heap cl (sys0 ! (i div 128))) (i mod 128) = Some (val i)"
    if "r \<le> i" "i < k" for i
    using flds that by simp
  have "?e \<le> 1025 div 128"
    using k by (intro div_le_mono) simp
  then have e9: "?e < 9" by simp
  have sr: "Suc r div 128 \<le> k div 128" "k div 128 \<le> ?e" "r div 128 \<le> Suc r div 128"
    using r by (simp_all add: div_le_mono)
  have f: "front_addr cl = Inr (slot_of sys0 r)"
    using flds by (simp add: front_addr_def slot_of_def)
  have l: "load 128 (slot_of sys0 r) cl = Inr (val r)"
    using data [of r] r by (simp add: load_def slot_of_def)
  let ?c = "sys0 ! (r div 128)"
  define cl1 where "cl1 = cl\<lparr>heap := (heap cl)(?c := (heap cl ?c)\<lparr>chunk_data := (chunk_data (heap cl ?c))(r mod 128 := None)\<rparr>)\<rparr>"
  have dt: "dtor 128 (slot_of sys0 r) cl = Inr cl1"
    by (simp add: dtor_def slot_of_def cl1_def)
  have next1: "chunk_next (heap cl1 x) = chunk_next (heap cl x)"
    and prev1: "chunk_prev (heap cl1 x) = chunk_prev (heap cl x)" for x
    by (simp_all add: cl1_def)
  have data1: "chunk_data (heap cl1 (sys0 ! (i div 128))) (i mod 128) = Some (val i)"
    if "Suc r \<le> i" "i < k" for i
  proof -
    have "sys0 ! (i div 128) \<noteq> ?c \<or> i mod 128 \<noteq> r mod 128"
      using slot_cases [OF d, of i r] k that r by simp
    with data [of i] that show ?thesis
      by (auto simp: cl1_def)
  qed
  have begin1: "mBeginChunk cl1 = Some ?c" "mBeginPos cl1 = r mod 128"
    using flds by (simp_all add: cl1_def)
  have lt: "r mod 128 + 1 < 2 ^ 32"
    by (rule less_trans [of _ 129]) simp_all
  have next_c: "Suc r mod 128 = 0 \<Longrightarrow> chunk_next (heap cl1 ?c) = Some (sys0 ! (Suc r div 128))"
  proof -
    assume z: "Suc r mod 128 = 0"
    note bd = Suc_boundary [OF z]
    have "r div 128 < ?e" using bd sr by simp
    from link(1) [OF _ this] bd next1 show ?thesis by simp
  qed
  have pos: "(mBeginPos cl1 + 1) mod 2 ^ 32 = 128 \<longleftrightarrow> Suc r mod 128 = 0"
    using begin1 lt by (simp add: mod_Suc)
  have "\<exists>cl2. pop 128 1 cl1 = Inr cl2"
    unfolding pop_Inr_iff pos
    using begin1 next_c allocator_free_1 by auto
  then obtain cl2 where p: "pop 128 1 cl1 = Inr cl2" ..
  note res = pop_result [OF p, unfolded pos]
  have data2: "chunk_data (heap cl2 c) = chunk_data (heap cl1 c)"
    and next2: "chunk_next (heap cl2 c) = chunk_next (heap cl1 c)" for c
    using res by simp_all
  have begin2: "mBeginChunk cl2 = Some (sys0 ! (Suc r div 128))" "mBeginPos cl2 = Suc r mod 128"
  proof -
    show "mBeginChunk cl2 = Some (sys0 ! (Suc r div 128))"
    proof (cases "Suc r mod 128 = 0")
      case True
      with res begin1 next_c show ?thesis by auto
    next
      case False
      with res begin1 Suc_inside [OF False] show ?thesis by auto
    qed
    show "mBeginPos cl2 = Suc r mod 128"
    proof (cases "Suc r mod 128 = 0")
      case True
      with res show ?thesis by auto
    next
      case False
      with res begin1 lt Suc_inside [OF False] show ?thesis by auto
    qed
  qed
  have prev2: "chunk_prev (heap cl2 (sys0 ! Suc j)) = chunk_prev (heap cl1 (sys0 ! Suc j))"
    if "Suc r div 128 \<le> j" "j < ?e" for j
  proof (cases "Suc r mod 128 = 0")
    case True
    have "sys0 ! Suc j \<noteq> sys0 ! (Suc r div 128)"
      using chunk_distinct [OF d, of "Suc j" "Suc r div 128"] that e9 by simp
    with res begin1 next_c True show ?thesis by auto
  next
    case False
    with res show ?thesis by auto
  qed
  have "shape sys0 val (Suc r) k cl2"
    unfolding shape_def
  proof (intro conjI allI impI)
    show "mBeginChunk cl2 = Some (sys0 ! (Suc r div 128))" "mBeginPos cl2 = Suc r mod 128"
      by (fact begin2)+
    show "mBackChunk cl2 = Some (sys0 ! (k div 128))" "mBackPos cl2 = k mod 128"
      "mEndChunk cl2 = Some (sys0 ! (Suc k div 128))" "mEndPos cl2 = Suc k mod 128"
      using res flds by (simp_all add: cl1_def)
  next
    fix i assume "Suc r \<le> i \<and> i < k"
    then show "chunk_data (heap cl2 (sys0 ! (i div 128))) (i mod 128) = Some (val i)"
      using data1 [of i] by (simp add: data2)
  next
    fix j assume j: "Suc r div 128 \<le> j \<and> j < Suc k div 128"
    then have "r div 128 \<le> j" "j < ?e" using sr by linarith+
    from link [OF this] j prev2 [of j]
    show "chunk_next (heap cl2 (sys0 ! j)) = Some (sys0 ! Suc j)"
      "chunk_prev (heap cl2 (sys0 ! Suc j)) = Some (sys0 ! j)"
      by (simp_all add: next2 next1 prev1)
  qed
  with f l dt p show ?thesis by blast
qed

lemma shape_addrs:
  assumes "shape sys0 val r k cl"
  shows "front_addr cl = Inr (slot_of sys0 r)" "back_addr cl = Inr (slot_of sys0 k)"
  using assms by (simp_all add: shape_def front_addr_def back_addr_def slot_of_def)

lemma ctor_producing:
  assumes d: "9 \<le> length sys0"
  shows "\<exists>s0. Pipe_ctor 128 1 a0 sys0 h0 = Inr s0 \<and> producing sys0 0 s0 \<and>
              unused sys0 0 (mChunkList s0) \<and> mCommitEnd s0 \<noteq> None"
proof -
  have "sys0 = sys0 ! 0 # drop 1 sys0"
    using d by (cases sys0) simp_all
  then have al: "allocator_alloc 1 (MemoryAllocator_ctor 1 a0) sys0
      = Inr (Some (sys0 ! 0), a0\<lparr>mPtr := None\<rparr>, drop 1 sys0)"
    by (cases sys0)
      (simp_all add: allocator_alloc_def MemoryAllocator1_alloc_def exchange_def
        MemoryAllocator0_alloc_def MemoryAllocator_ctor_def del: One_nat_def)
  show ?thesis
    by (simp add: Pipe_ctor_def ChunkList_ctor_def al push_def Let_def back_addr_def
        producing_def shape_def unused_def slot_of_def del: One_nat_def, simp)
qed

lemma write_producing:
  assumes d: "distinct (take 9 sys0)" "9 \<le> length sys0"
    and p: "producing sys0 k s" and un: "unused sys0 k (mChunkList s)" and k: "k < 1024"
  shows "\<exists>s'. Pipe_write 128 1 True (Inr (int k)) s = Inr (None, s') \<and>
              producing sys0 (Suc k) s' \<and> unused sys0 (Suc k) (mChunkList s') \<and>
              mCommitEnd s' = mCommitEnd s"
proof -
  from p have sh: "shape sys0 int 0 k (mChunkList s)"
    by (simp add: producing_def)
  from write_step_list [OF d sh un k, of "int k"]
  obtain cl1 cl2 where c: "ctor 128 (slot_of sys0 k) (int k) (mChunkList s) = Inr cl1"
    and ps: "push 128 1 cl1 = Inr cl2"
    and sh2: "shape sys0 (int(k := int k)) 0 (Suc k) cl2" and un2: "unused sys0 (Suc k) cl2"
    using un by blast
  have "int(k := int k) = int" by simp
  with sh2 have sh2': "shape sys0 int 0 (Suc k) cl2" by simp
  have "Pipe_write 128 1 True (Inr (int k)) s = Inr (None, s\<lparr>mChunkList := cl2\<rparr>)"
    by (simp add: Pipe_write_def shape_addrs [OF sh] c ps del: One_nat_def)
  moreover have "producing sys0 (Suc k) (s\<lparr>mChunkList := cl2\<rparr>)"
    using p sh2' by (simp add: producing_def)
  ultimately show ?thesis
    using un2 by (intro exI [of _ "s\<lparr>mChunkList := cl2\<rparr>"]) simp
qed

lemma unwrite_producing:
  assumes d: "distinct (take 9 sys0)" "9 \<le> length sys0"
    and p: "producing sys0 (Suc k) s" and k: "k < 1024"
  shows "\<exists>s'. unwrite 128 1 s = Inr (Some (int k), s') \<and> producing sys0 k s' \<and>
              mCommitEnd s' = mCommitEnd s"
proof -
  from p have sh: "shape sys0 int 0 (Suc k) (mChunkList s)"
    and fe: "mFlushEnd s = Some (slot_of sys0 0)"
    by (simp_all add: producing_def)
  from unwrite_step_list [OF d sh k]
  obtain cl1 cl2 where u: "unpush 128 1 (mChunkList s) = Inr cl1"
    and b: "back_addr cl1 = Inr (slot_of sys0 k)"
    and l: "load 128 (slot_of sys0 k) cl1 = Inr (int k)"
    and dt: "dtor 128 (slot_of sys0 k) cl1 = Inr cl2" and sh2: "shape sys0 int 0 k cl2"
    by auto
  have ne: "slot_of sys0 0 \<noteq> slot_of sys0 (Suc k)"
    using slot_distinct [OF d, of 0 "Suc k"] k by simp
  have "unwrite 128 1 s = Inr (Some (int k), s\<lparr>mChunkList := cl2\<rparr>)"
    using ne by (simp add: unwrite_def shape_addrs [OF sh] fe u b l dt del: One_nat_def)
  moreover have "producing sys0 k (s\<lparr>mChunkList := cl2\<rparr>)"
    using p sh2 by (simp add: producing_def)
  ultimately show ?thesis
    by (intro exI [of _ "s\<lparr>mChunkList := cl2\<rparr>"]) simp
qed

lemma read_producing:
  assumes "producing sys0 k s" "mCommitEnd s \<noteq> None"
  shows "read 128 1 s = Inr (None, s\<lparr>mCommitEnd := None\<rparr>)"
    and "producing sys0 k (s\<lparr>mCommitEnd := None\<rparr>)"
proof -
  from assms have sh: "shape sys0 int 0 k (mChunkList s)"
    by (simp add: producing_def)
  show "read 128 1 s = Inr (None, s\<lparr>mCommitEnd := None\<rparr>)"
    using assms
    by (auto simp: read_def check_read_def shape_addrs [OF sh] producing_def
        compare_exchange_strong_def)
  show "producing sys0 k (s\<lparr>mCommitEnd := None\<rparr>)"
    using assms by (simp add: producing_def)
qed

lemma final_val_upd: "int(512 := - 1) = final_val"
  by (auto simp: final_val_def fun_eq_iff)

lemma publish_producing:
  assumes d: "distinct (take 9 sys0)" "9 \<le> length sys0"
    and p: "producing sys0 512 s"
  shows "\<exists>s1 s2. Pipe_write 128 1 False (Inr (- 1)) s = Inr (None, s1) \<and>
           flush s1 = (mCommitEnd s \<noteq> None, s2) \<and> consuming sys0 0 s2"
proof -
  from p have sh: "shape sys0 int 0 512 (mChunkList s)"
    by (simp add: producing_def)
  have "\<not> Suc (Suc 512) mod 128 = (0::nat)" by simp
  with write_step_list [OF d sh _ , of "- 1"]
  obtain cl1 cl2 where c: "ctor 128 (slot_of sys0 512) (- 1) (mChunkList s) = Inr cl1"
    and ps: "push 128 1 cl1 = Inr cl2"
    and sh2: "shape sys0 (int(512 := - 1)) 0 (Suc 512) cl2"
    by auto
  from sh2 have sh2': "shape sys0 final_val 0 513 cl2"
    by (simp add: final_val_upd)
  define s1 where "s1 = s\<lparr>mChunkList := cl2, mFlushEnd := Some (slot_of sys0 513)\<rparr>"
  have w: "Pipe_write 128 1 False (Inr (- 1)) s = Inr (None, s1)"
    by (simp add: Pipe_write_def shape_addrs [OF sh] c ps shape_addrs [OF sh2'] s1_def
        del: One_nat_def)
  have ne: "slot_of sys0 0 \<noteq> slot_of sys0 513"
    using slot_distinct [OF d, of 0 513] by simp
  define s2 where "s2 = s1\<lparr>mCommitEnd := Some (slot_of sys0 513), mLastFlushEnd := Some (slot_of sys0 513)\<rparr>"
  have f: "flush s1 = (mCommitEnd s \<noteq> None, s2)"
    using p ne
    by (auto simp: flush_def s1_def s2_def producing_def compare_exchange_strong_def)
  have "consuming sys0 0 s2"
    using p sh2' by (simp add: consuming_def s2_def s1_def producing_def)
  with w f show ?thesis by blast
qed

lemma read_consuming:
  assumes d: "distinct (take 9 sys0)" "9 \<le> length sys0"
    and c: "consuming sys0 r s" and r: "r < 513"
  shows "\<exists>s'. read 128 1 s = Inr (Some (final_val r), s') \<and> consuming sys0 (Suc r) s'"
proof -
  from c have sh: "shape sys0 final_val r 513 (mChunkList s)"
    and ce: "mCommitEnd s = Some (slot_of sys0 513)"
    and re: "mReadEnd s = Some (slot_of sys0 513) \<or> (r = 0 \<and> mReadEnd s = Some (slot_of sys0 0))"
    by (simp_all add: consuming_def)
  from read_step_list [OF d sh r]
  obtain cl1 cl2 where f: "front_addr (mChunkList s) = Inr (slot_of sys0 r)"
    and l: "load 128 (slot_of sys0 r) (mChunkList s) = Inr (final_val r)"
    and dt: "dtor 128 (slot_of sys0 r) (mChunkList s) = Inr cl1"
    and pp: "pop 128 1 cl1 = Inr cl2" and sh2: "shape sys0 final_val (Suc r) 513 cl2"
    by auto
  have ne: "slot_of sys0 r \<noteq> slot_of sys0 513"
    using slot_distinct [OF d, of r 513] r by simp
  have ck: "check_read s = Inr (True, s\<lparr>mReadEnd := Some (slot_of sys0 513)\<rparr>)"
    using re
  proof
    assume a: "mReadEnd s = Some (slot_of sys0 513)"
    then have "s\<lparr>mReadEnd := Some (slot_of sys0 513)\<rparr> = s" by simp
    with a ne show ?thesis
      by (simp add: check_read_def f)
  next
    assume a: "r = 0 \<and> mReadEnd s = Some (slot_of sys0 0)"
    with ne ce show ?thesis
      by (simp add: check_read_def f compare_exchange_strong_def)
  qed
  have "read 128 1 s = Inr (Some (final_val r), s\<lparr>mReadEnd := Some (slot_of sys0 513), mChunkList := cl2\<rparr>)"
    by (simp add: read_def ck f l dt pp del: One_nat_def)
  moreover have "consuming sys0 (Suc r) (s\<lparr>mReadEnd := Some (slot_of sys0 513), mChunkList := cl2\<rparr>)"
    using ce sh2 by (simp add: consuming_def)
  ultimately show ?thesis by blast
qed

lemma read_consumed:
  assumes "consuming sys0 513 s"
  shows "read 128 1 s = Inr (None, s\<lparr>mCommitEnd := None\<rparr>)"
proof -
  from assms have sh: "shape sys0 final_val 513 513 (mChunkList s)"
    by (simp add: consuming_def)
  show ?thesis
    using assms
    by (simp add: read_def check_read_def shape_addrs [OF sh] consuming_def
        compare_exchange_strong_def)
qed

lemma before_Cons_Suc: "before s0 ((r, s1) # tr) (Suc j) = before s1 tr j"
  by (cases j) (simp_all add: before_def)

lemma before_0: "before s0 tr 0 = s0"
  by (simp add: before_def)

lemma before_append:
  "before s (t1 @ t2) j =
     (if j \<le> length t1 then before s t1 j else before (before s t1 (length t1)) t2 (j - length t1))"
  by (auto simp: before_def nth_append)

lemma run_append:
  "run N S (xs @ ys) s =
     (case run N S xs s of
        Inl f \<Rightarrow> Inl f
      | Inr t1 \<Rightarrow>
          (case run N S ys (before s t1 (length xs)) of
             Inl f \<Rightarrow> Inl f
           | Inr t2 \<Rightarrow> Inr (t1 @ t2)))"
proof (induction xs arbitrary: s)
  case Nil
  then show ?case by (simp add: before_def split: sum.splits)
next
  case (Cons x xs)
  show ?case
    by (simp add: Cons.IH before_Cons_Suc split: sum.splits prod.splits)
qed

lemma run_take:
  assumes "run N S cs s = Inr tr"
  shows "run N S (take j cs) s = Inr (take j tr)"
proof -
  have "run N S (take j cs @ drop j cs) s = Inr tr"
    using assms by simp
  then obtain t1 t2 where t1: "run N S (take j cs) s = Inr t1" and tr: "tr = t1 @ t2"
    unfolding run_append by (auto split: sum.splits)
  from run_length [OF t1] have "length t1 = length (take j cs)" .
  moreover from run_length [OF assms] have "length tr = length cs" .
  ultimately have "take j tr = t1"
    using tr by (simp add: min_def split: if_splits)
  with t1 show ?thesis by simp
qed

lemma step_Write:
  "Pipe_write N S inc x s = Inr (None, s') \<Longrightarrow> step N S (Write x inc) s = Inr (Wrote, s')"
  by (simp add: step_def)

lemma step_Unwrite:
  "unwrite N S s = Inr (r, s') \<Longrightarrow> step N S Unwrite s = Inr (Unwrote r, s')"
  by (simp add: step_def)

lemma step_Read:
  "read N S s = Inr (r, s') \<Longrightarrow> step N S Read s = Inr (Got r, s')"
  by (simp add: step_def)

lemma step_Flush:
  "flush s = (r, s') \<Longrightarrow> step N S Flush s = Inr (Flushed r, s')"
  by (simp add: step_def)

lemma run_appendI:
  assumes "run N S xs s = Inr t1" "run N S ys (before s t1 (length xs)) = Inr t2"
  shows "run N S (xs @ ys) s = Inr (t1 @ t2)"
  using assms by (simp add: run_append)

lemma returned_appendI:
  assumes "run N S xs s = Inr t1" "returned N S ys (before s t1 (length xs)) = Inr r2"
  shows "returned N S (xs @ ys) s = Inr (map fst t1 @ r2)"
  using assms by (auto simp: returned_def run_append split: sum.splits)

lemma returned_ConsI:
  assumes "step N S c s = Inr (r, s1)" "returned N S cs s1 = Inr rs"
  shows "returned N S (c # cs) s = Inr (r # rs)"
  using assms by (auto simp: returned_def split: sum.splits)

lemma before_take: "j \<le> length tr \<Longrightarrow> before s (take j tr) j = before s tr j"
  by (simp add: before_def)

lemma before_append_right:
  "before s (t1 @ t2) (length t1 + j) = before (before s t1 (length t1)) t2 j"
  by (cases j) (simp_all add: before_def nth_append)

lemma run_writes:
  assumes d: "distinct (take 9 sys0)" "9 \<le> length sys0"
  shows "producing sys0 k s \<Longrightarrow> unused sys0 k (mChunkList s) \<Longrightarrow> k + n \<le> 1024 \<Longrightarrow>
     \<exists>tr. run 128 1 (map (\<lambda>i. Write (Inr (int i) :: unit + int) True) [k..<k + n]) s = Inr tr \<and>
          map fst tr = replicate n Wrote \<and>
          (\<forall>j\<le>n. producing sys0 (k + j) (before s tr j) \<and>
                  unused sys0 (k + j) (mChunkList (before s tr j)) \<and>
                  mCommitEnd (before s tr j) = mCommitEnd s)"
proof (induction n arbitrary: k s)
  case 0
  then show ?case by (simp add: before_def)
next
  case (Suc n)
  from Suc.prems have k: "k < 1024" by simp
  from write_producing [OF d Suc.prems(1,2) k]
  obtain s' where w: "Pipe_write 128 1 True (Inr (int k) :: unit + int) s = Inr (None, s')"
    and p': "producing sys0 (Suc k) s'" and u': "unused sys0 (Suc k) (mChunkList s')"
    and c': "mCommitEnd s' = mCommitEnd s"
    by blast
  from Suc.prems have "Suc k + n \<le> 1024" by simp
  from Suc.IH [OF p' u' this]
  obtain tr where tr: "run 128 1 (map (\<lambda>i. Write (Inr (int i) :: unit + int) True) [Suc k..<Suc k + n]) s' = Inr tr"
    and rets: "map fst tr = replicate n Wrote"
    and inv: "\<forall>j\<le>n. producing sys0 (Suc k + j) (before s' tr j) \<and>
                  unused sys0 (Suc k + j) (mChunkList (before s' tr j)) \<and>
                  mCommitEnd (before s' tr j) = mCommitEnd s'"
    by blast
  have upt: "[k..<k + Suc n] = k # [Suc k..<Suc k + n]"
    by (simp add: upt_rec)
  have st: "step 128 1 (Write (Inr (int k) :: unit + int) True) s = Inr (Wrote, s')"
    using w by (rule step_Write)
  have "run 128 1 (map (\<lambda>i. Write (Inr (int i) :: unit + int) True) [k..<k + Suc n]) s = Inr ((Wrote, s') # tr)"
    unfolding upt using st tr by (simp del: upt_Suc)
  moreover have "map fst ((Wrote, s') # tr) = replicate (Suc n) Wrote"
    using rets by simp
  moreover have "\<forall>j\<le>Suc n. producing sys0 (k + j) (before s ((Wrote, s') # tr) j) \<and>
                  unused sys0 (k + j) (mChunkList (before s ((Wrote, s') # tr) j)) \<and>
                  mCommitEnd (before s ((Wrote, s') # tr) j) = mCommitEnd s"
  proof (intro allI impI)
    fix j assume "j \<le> Suc n"
    then show "producing sys0 (k + j) (before s ((Wrote, s') # tr) j) \<and>
                  unused sys0 (k + j) (mChunkList (before s ((Wrote, s') # tr) j)) \<and>
                  mCommitEnd (before s ((Wrote, s') # tr) j) = mCommitEnd s"
      using Suc.prems(1,2) inv c' by (cases j) (simp_all add: before_0 before_Cons_Suc)
  qed
  ultimately show ?case by blast
qed

lemma run_unwrites:
  assumes d: "distinct (take 9 sys0)" "9 \<le> length sys0"
  shows "producing sys0 (k + n) s \<Longrightarrow> k + n \<le> 1024 \<Longrightarrow>
     \<exists>tr. run 128 1 (replicate n (Unwrite :: (unit, int) call)) s = Inr tr \<and>
          map fst tr = map (\<lambda>j. Unwrote (Some (int (k + n) - 1 - int j))) [0..<n] \<and>
          (\<forall>j\<le>n. producing sys0 (k + n - j) (before s tr j) \<and>
                  mCommitEnd (before s tr j) = mCommitEnd s)"
proof (induction n arbitrary: s)
  case 0
  then show ?case by (simp add: before_def)
next
  case (Suc n)
  from Suc.prems have k: "k + n < 1024" and p: "producing sys0 (Suc (k + n)) s" by simp_all
  from unwrite_producing [OF d p k]
  obtain s' where u: "unwrite 128 1 s = Inr (Some (int (k + n)), s')"
    and p': "producing sys0 (k + n) s'" and c': "mCommitEnd s' = mCommitEnd s"
    by blast
  from k have "k + n \<le> 1024" by simp
  from Suc.IH [OF p' this]
  obtain tr where tr: "run 128 1 (replicate n (Unwrite :: (unit, int) call)) s' = Inr tr"
    and rets: "map fst tr = map (\<lambda>j. Unwrote (Some (int (k + n) - 1 - int j))) [0..<n]"
    and inv: "\<forall>j\<le>n. producing sys0 (k + n - j) (before s' tr j) \<and>
                  mCommitEnd (before s' tr j) = mCommitEnd s'"
    by blast
  let ?r = "Unwrote (Some (int (k + n))) :: (unit, int) ret"
  have st: "step 128 1 (Unwrite :: (unit, int) call) s = Inr (?r, s')"
    using u by (rule step_Unwrite)
  have "run 128 1 (replicate (Suc n) (Unwrite :: (unit, int) call)) s = Inr ((?r, s') # tr)"
    using st tr by simp
  moreover have "map fst ((?r, s') # tr)
      = map (\<lambda>j. Unwrote (Some (int (k + Suc n) - 1 - int j))) [0..<Suc n]"
    using rets by (simp add: map_upt_Suc del: upt_Suc)
  moreover have "\<forall>j\<le>Suc n. producing sys0 (k + Suc n - j) (before s ((?r, s') # tr) j) \<and>
                  mCommitEnd (before s ((?r, s') # tr) j) = mCommitEnd s"
  proof (intro allI impI)
    fix j assume "j \<le> Suc n"
    then show "producing sys0 (k + Suc n - j) (before s ((?r, s') # tr) j) \<and>
                  mCommitEnd (before s ((?r, s') # tr) j) = mCommitEnd s"
      using Suc.prems(1) inv c' by (cases j) (simp_all add: before_0 before_Cons_Suc)
  qed
  ultimately show ?case by blast
qed

lemma run_reads:
  assumes d: "distinct (take 9 sys0)" "9 \<le> length sys0"
  shows "consuming sys0 r s \<Longrightarrow> r + n \<le> 513 \<Longrightarrow>
     \<exists>tr. run 128 1 (replicate n (Read :: (unit, int) call)) s = Inr tr \<and>
          map fst tr = map (\<lambda>j. Got (Some (final_val (r + j)))) [0..<n] \<and>
          consuming sys0 (r + n) (before s tr n)"
proof (induction n arbitrary: r s)
  case 0
  then show ?case by (simp add: before_def)
next
  case (Suc n)
  from Suc.prems have r: "r < 513" by simp
  from read_consuming [OF d Suc.prems(1) r]
  obtain s' where rd: "read 128 1 s = Inr (Some (final_val r), s')"
    and c': "consuming sys0 (Suc r) s'"
    by blast
  from Suc.prems have "Suc r + n \<le> 513" by simp
  from Suc.IH [OF c' this]
  obtain tr where tr: "run 128 1 (replicate n (Read :: (unit, int) call)) s' = Inr tr"
    and rets: "map fst tr = map (\<lambda>j. Got (Some (final_val (Suc r + j)))) [0..<n]"
    and inv: "consuming sys0 (Suc r + n) (before s' tr n)"
    by blast
  let ?r = "Got (Some (final_val r)) :: (unit, int) ret"
  have st: "step 128 1 (Read :: (unit, int) call) s = Inr (?r, s')"
    using rd by (rule step_Read)
  have "run 128 1 (replicate (Suc n) (Read :: (unit, int) call)) s = Inr ((?r, s') # tr)"
    using st tr by simp
  moreover have "map fst ((?r, s') # tr) = map (\<lambda>j. Got (Some (final_val (r + j)))) [0..<Suc n]"
    using rets by (simp add: map_upt_Suc del: upt_Suc)
  moreover have "consuming sys0 (r + Suc n) (before s ((?r, s') # tr) (Suc n))"
    using inv by (simp add: before_Cons_Suc)
  ultimately show ?case by blast
qed

text \<open>The calls after the first phase, from a pipe that holds 0 to 511.\<close>

lemma publish_and_read:
  assumes d: "distinct (take 9 sys0)" "9 \<le> length sys0"
    and p: "producing sys0 512 s"
  shows "returned 128 1 (publish @ reads_514) s =
     Inr ([Wrote, Flushed (mCommitEnd s \<noteq> None)] @
          map (\<lambda>i. Got (Some (int i))) [0..<512] @ [Got (Some (- 1)), Got None])"
proof -
  from publish_producing [OF d p]
  obtain s3 s4 where w3: "Pipe_write 128 1 False (Inr (- 1) :: unit + int) s = Inr (None, s3)"
    and f4: "flush s3 = (mCommitEnd s \<noteq> None, s4)" and c4: "consuming sys0 0 s4"
    by blast
  have st3: "step 128 1 (Write (Inr (- 1) :: unit + int) False) s = Inr (Wrote, s3)"
    using w3 by (rule step_Write)
  have st4: "step 128 1 (Flush :: (unit, int) call) s3 = Inr (Flushed (mCommitEnd s \<noteq> None), s4)"
    using f4 by (rule step_Flush)
  from run_reads [OF d c4, of 513]
  obtain t4 where t4: "run 128 1 (replicate 513 (Read :: (unit, int) call)) s4 = Inr t4"
    and r4: "map fst t4 = map (\<lambda>j. Got (Some (final_val j))) [0..<513]"
    and c5: "consuming sys0 513 (before s4 t4 513)"
    by auto
  define s5 where "s5 = before s4 t4 513"
  have st5: "step 128 1 (Read :: (unit, int) call) s5 = Inr (Got None, s5\<lparr>mCommitEnd := None\<rparr>)"
    using read_consumed [OF c5] unfolding s5_def by (rule step_Read)
  have r5: "returned 128 1 [Read :: (unit, int) call] s5 = Inr [Got None]"
    using st5 by (simp add: returned_def)
  have "reads_514 = replicate (Suc 513) Read"
    unfolding reads_514_def by simp
  also have "\<dots> = replicate 513 Read @ [Read]"
    by (simp only: replicate_Suc replicate_append_same)
  finally have rs: "reads_514 = replicate 513 Read @ [Read]" .
  have "returned 128 1 (replicate 513 (Read :: (unit, int) call) @ [Read]) s4
        = Inr (map fst t4 @ [Got None])"
  proof (rule returned_appendI [OF t4])
    show "returned 128 1 [Read :: (unit, int) call] (before s4 t4 (length (replicate 513 (Read :: (unit, int) call))))
        = Inr [Got None]"
      using r5 by (simp add: s5_def del: One_nat_def)
  qed
  then have t5: "returned 128 1 reads_514 s4 = Inr (map fst t4 @ [Got None])"
    by (simp only: rs)
  have r4': "map fst t4 = map (\<lambda>i. Got (Some (int i))) [0..<512] @ [Got (Some (- 1))]"
  proof -
    have "[0..<Suc 512] = [0..<512] @ [512]"
      by (rule upt_Suc_append) simp
    moreover have "Suc 512 = 513"
      by simp
    ultimately have "[0..<513] = [0..<512] @ [512]"
      by metis
    then show ?thesis
      unfolding r4 by (simp add: final_val_def)
  qed
  have "returned 128 1 (Write (Inr (- 1)) False # Flush # reads_514) s
      = Inr (Wrote # Flushed (mCommitEnd s \<noteq> None) # map fst t4 @ [Got None])"
    using st3 by (rule returned_ConsI) (use st4 in \<open>rule returned_ConsI\<close>, rule t5)
  then show ?thesis
    by (simp add: publish_def r4')
qed

lemma unwrites_and_rest:
  assumes d: "distinct (take 9 sys0)" "9 \<le> length sys0"
    and p: "producing sys0 (512 + n) s" and n: "n \<le> 512"
  shows "returned 128 1 (replicate n Unwrite @ publish @ reads_514) s =
     Inr (map (\<lambda>i. Unwrote (Some (int (512 + n) - 1 - int i))) [0..<n] @
          [Wrote, Flushed (mCommitEnd s \<noteq> None)] @
          map (\<lambda>i. Got (Some (int i))) [0..<512] @ [Got (Some (- 1)), Got None])"
proof -
  from n have "512 + n \<le> 1024" by simp
  from run_unwrites [OF d p this]
  obtain t where t: "run 128 1 (replicate n (Unwrite :: (unit, int) call)) s = Inr t"
    and r: "map fst t = map (\<lambda>i. Unwrote (Some (int (512 + n) - 1 - int i))) [0..<n]"
    and i: "\<forall>j\<le>n. producing sys0 (512 + n - j) (before s t j) \<and>
                  mCommitEnd (before s t j) = mCommitEnd s"
    by blast
  from i [rule_format, of n] have p': "producing sys0 512 (before s t n)"
    and c': "mCommitEnd (before s t n) = mCommitEnd s"
    by simp_all
  have "returned 128 1 (replicate n Unwrite @ publish @ reads_514) s =
     Inr (map fst t @ [Wrote, Flushed (mCommitEnd s \<noteq> None)] @
          map (\<lambda>i. Got (Some (int i))) [0..<512] @ [Got (Some (- 1)), Got None])"
  proof (rule returned_appendI [OF t])
    show "returned 128 1 (publish @ reads_514)
        (before s t (length (replicate n (Unwrite :: (unit, int) call)))) =
      Inr ([Wrote, Flushed (mCommitEnd s \<noteq> None)] @
          map (\<lambda>i. Got (Some (int i))) [0..<512] @ [Got (Some (- 1)), Got None])"
      using publish_and_read [OF d p'] c' by simp
  qed
  then show ?thesis
    by (simp only: r)
qed

lemma writes_and_rest:
  assumes d: "distinct (take 9 sys0)" "9 \<le> length sys0"
    and p: "producing sys0 k s" and u: "unused sys0 k (mChunkList s)" and k: "k \<le> 1024"
  shows "returned 128 1
       (map (\<lambda>i. Write (Inr (int i)) True) [k..<1024] @ unwrites_512 @ publish @ reads_514) s =
     Inr (replicate (1024 - k) Wrote @ map (\<lambda>i. Unwrote (Some (1023 - int i))) [0..<512] @
          [Wrote, Flushed (mCommitEnd s \<noteq> None)] @
          map (\<lambda>i. Got (Some (int i))) [0..<512] @ [Got (Some (- 1)), Got None])"
proof -
  let ?ws = "map (\<lambda>i. Write (Inr (int i) :: unit + int) True) [k..<1024]"
  from k have kn: "k + (1024 - k) \<le> 1024" "k + (1024 - k) = 1024" by simp_all
  from run_writes [OF d p u kn(1)]
  obtain t where t: "run 128 1 ?ws s = Inr t"
    and r: "map fst t = replicate (1024 - k) Wrote"
    and i: "\<forall>j\<le>1024 - k. producing sys0 (k + j) (before s t j) \<and>
                  unused sys0 (k + j) (mChunkList (before s t j)) \<and>
                  mCommitEnd (before s t j) = mCommitEnd s"
    unfolding kn(2) by blast
  from i [rule_format, of "1024 - k"] k
  have p': "producing sys0 (512 + 512) (before s t (1024 - k))"
    and c': "mCommitEnd (before s t (1024 - k)) = mCommitEnd s"
    by simp_all
  have len: "length ?ws = 1024 - k"
    by simp
  have "returned 128 1 (?ws @ unwrites_512 @ publish @ reads_514) s =
     Inr (map fst t @ map (\<lambda>i. Unwrote (Some (1023 - int i))) [0..<512] @
          [Wrote, Flushed (mCommitEnd s \<noteq> None)] @
          map (\<lambda>i. Got (Some (int i))) [0..<512] @ [Got (Some (- 1)), Got None])"
  proof (rule returned_appendI [OF t])
    show "returned 128 1 (unwrites_512 @ publish @ reads_514) (before s t (length ?ws)) =
      Inr (map (\<lambda>i. Unwrote (Some (1023 - int i))) [0..<512] @
          [Wrote, Flushed (mCommitEnd s \<noteq> None)] @
          map (\<lambda>i. Got (Some (int i))) [0..<512] @ [Got (Some (- 1)), Got None])"
      unfolding len
      using unwrites_and_rest [OF d p', of ] c' by (simp add: unwrites_512_def)
  qed
  then show ?thesis
    by (simp only: r)
qed

lemma drop_first_phase:
  assumes "j \<le> 1024"
  shows "drop j (writes_1024 @ unwrites_512)
           = map (\<lambda>i. Write (Inr (int i)) True) [j..<1024] @ unwrites_512"
    and "drop j (replicate 1024 (Wrote :: (unit, int) ret) @ map (\<lambda>i. Unwrote (Some (1023 - int i))) [0..<512])
           = replicate (1024 - j) Wrote @ map (\<lambda>i. Unwrote (Some (1023 - int i))) [0..<512]"
  using assms by (simp_all add: writes_1024_def drop_map)

lemma drop_first_phase_unwrites:
  assumes "1024 < j" "j \<le> 1536"
  shows "drop j (writes_1024 @ unwrites_512) = replicate (1536 - j) Unwrite"
    and "drop j (replicate 1024 (Wrote :: (unit, int) ret) @ map (\<lambda>i. Unwrote (Some (1023 - int i))) [0..<512])
           = map (\<lambda>i. Unwrote (Some (int (512 + (1536 - j)) - 1 - int i))) [0..<1536 - j]"
proof -
  show "drop j (writes_1024 @ unwrites_512) = replicate (1536 - j) Unwrite"
    using assms by (simp add: writes_1024_def unwrites_512_def)
  have "[j - 1024..<512] = map (\<lambda>i. i + (j - 1024)) [0..<1536 - j]"
    using assms map_add_upt [of "j - 1024" "1536 - j"] by simp
  then have "map (\<lambda>i. Unwrote (Some (1023 - int i)) :: (unit, int) ret) [j - 1024..<512]
      = map (\<lambda>i. Unwrote (Some (1023 - int (i + (j - 1024))))) [0..<1536 - j]"
    by (simp add: comp_def)
  also have "\<dots> = map (\<lambda>i. Unwrote (Some (int (512 + (1536 - j)) - 1 - int i))) [0..<1536 - j]"
    using assms by (intro map_cong refl) (simp add: of_nat_diff)
  finally show "drop j (replicate 1024 (Wrote :: (unit, int) ret) @ map (\<lambda>i. Unwrote (Some (1023 - int i))) [0..<512])
           = map (\<lambda>i. Unwrote (Some (int (512 + (1536 - j)) - 1 - int i))) [0..<1536 - j]"
    using assms by (simp add: drop_map)
qed

lemma rest_after:
  assumes d: "distinct (take 9 sys0)" "9 \<le> length sys0"
    and j: "j \<le> 1536"
    and p: "producing sys0 (if j \<le> 1024 then j else 2048 - j) s"
    and u: "j \<le> 1024 \<Longrightarrow> unused sys0 j (mChunkList s)"
  shows "returned 128 1 (drop j (writes_1024 @ unwrites_512) @ publish @ reads_514) s =
     Inr (drop j (replicate 1024 Wrote @ map (\<lambda>i. Unwrote (Some (1023 - int i))) [0..<512]) @
          [Wrote, Flushed (mCommitEnd s \<noteq> None)] @
          map (\<lambda>i. Got (Some (int i))) [0..<512] @ [Got (Some (- 1)), Got None])"
proof (cases "j \<le> 1024")
  case True
  with p have pj: "producing sys0 j s" by simp
  show ?thesis
    unfolding drop_first_phase [OF True] append_assoc
    by (rule writes_and_rest [OF d pj u [OF True] True])
next
  case False
  then have j1: "1024 < j" by simp
  have eq: "2048 - j = 512 + (1536 - j)"
    using j j1 by linarith
  from p False have "producing sys0 (2048 - j) s" by simp
  then have pj: "producing sys0 (512 + (1536 - j)) s"
    unfolding eq .
  have n: "1536 - j \<le> 512"
    using j1 by linarith
  show ?thesis
    unfolding drop_first_phase_unwrites [OF j1 j] append_assoc
    by (rule unwrites_and_rest [OF d pj n])
qed

lemma first_phase:
  assumes d: "distinct (take 9 sys0)" "9 \<le> length sys0"
    and p: "producing sys0 0 s0" and u: "unused sys0 0 (mChunkList s0)"
  shows "\<exists>t. run 128 1 (writes_1024 @ unwrites_512) s0 = Inr t \<and>
     map fst t = replicate 1024 Wrote @ map (\<lambda>i. Unwrote (Some (1023 - int i))) [0..<512] \<and>
     (\<forall>j\<le>1536. producing sys0 (if j \<le> 1024 then j else 2048 - j) (before s0 t j) \<and>
        (j \<le> 1024 \<longrightarrow> unused sys0 j (mChunkList (before s0 t j))) \<and>
        mCommitEnd (before s0 t j) = mCommitEnd s0)"
proof -
  from run_writes [OF d p u, of 1024]
  obtain t1 where t1: "run 128 1 writes_1024 s0 = Inr t1"
    and r1: "map fst t1 = replicate 1024 Wrote"
    and i1: "\<forall>j\<le>1024. producing sys0 j (before s0 t1 j) \<and>
                unused sys0 j (mChunkList (before s0 t1 j)) \<and>
                mCommitEnd (before s0 t1 j) = mCommitEnd s0"
    by (auto simp: writes_1024_def)
  have l1: "length t1 = 1024"
    using run_length [OF t1] by (simp add: writes_1024_def)
  define s1 where "s1 = before s0 t1 1024"
  have p1: "producing sys0 (512 + 512) s1" and c1: "mCommitEnd s1 = mCommitEnd s0"
    using i1 [rule_format, of 1024] by (simp_all add: s1_def)
  from run_unwrites [OF d p1]
  obtain t2 where t2: "run 128 1 unwrites_512 s1 = Inr t2"
    and r2: "map fst t2 = map (\<lambda>j. Unwrote (Some (1023 - int j))) [0..<512]"
    and i2: "\<forall>j\<le>512. producing sys0 (1024 - j) (before s1 t2 j) \<and>
                mCommitEnd (before s1 t2 j) = mCommitEnd s1"
    by (auto simp: unwrites_512_def)
  have t12: "run 128 1 (writes_1024 @ unwrites_512) s0 = Inr (t1 @ t2)"
    using t1 t2 by (intro run_appendI) (simp_all add: s1_def writes_1024_def)
  have "producing sys0 (if j \<le> 1024 then j else 2048 - j) (before s0 (t1 @ t2) j) \<and>
        (j \<le> 1024 \<longrightarrow> unused sys0 j (mChunkList (before s0 (t1 @ t2) j))) \<and>
        mCommitEnd (before s0 (t1 @ t2) j) = mCommitEnd s0" if j: "j \<le> 1536" for j
  proof (cases "j \<le> 1024")
    case True
    with i1 [rule_format, of j] l1 show ?thesis
      by (simp add: before_append)
  next
    case False
    with j have "j - 1024 \<le> 512" by simp
    from i2 [rule_format, OF this] c1 False l1 j show ?thesis
      by (simp add: before_append s1_def)
  qed
  with t12 r1 r2 show ?thesis
    by (intro exI [of _ "t1 @ t2"]) simp
qed

text \<open>
  The run of \<open>main\<close>. Let the free store hold nine distinct blocks or more. The constructor builds
  the pipe, and the calls of \<open>main\<close> on it (1024 incomplete writes of 0 to 1023, 512
  calls of \<open>unwrite\<close>, the write of \<open>-1\<close>, \<open>flush\<close>, 514 calls of \<open>read\<close>) return
  in this order: 1024 times nothing; true with 1023, 1022, ..., 512; nothing and true
  (the \<open>flush\<close>); true with 0, 1, ..., 511; true with \<open>-1\<close>; false. Moreover, one
  \<open>read\<close> issued at any point of the first phase (after any \<open>j \<le> 1536\<close> of the
  writes and unwrites) returns false. The calls
  after it return what they return without it, except the \<open>flush\<close>, which then
  returns false, the reader having gone to sleep.
\<close>

theorem demonstration_run:
  assumes "distinct (take 9 sys0)" and "9 \<le> length sys0"
  shows "\<exists>s0. Pipe_ctor 128 1 a0 sys0 h0 = Inr s0 \<and>
     returned 128 1 (writes_1024 @ unwrites_512 @ publish @ reads_514) s0 =
       Inr (replicate 1024 Wrote @ map (\<lambda>i. Unwrote (Some (1023 - int i))) [0..<512] @
            [Wrote, Flushed True] @
            map (\<lambda>i. Got (Some (int i))) [0..<512] @ [Got (Some (- 1)), Got None]) \<and>
     (\<forall>j\<le>1536.
        returned 128 1
          (take j (writes_1024 @ unwrites_512) @ [Read] @
           drop j (writes_1024 @ unwrites_512) @ publish @ reads_514) s0 =
        Inr (take j (replicate 1024 Wrote @ map (\<lambda>i. Unwrote (Some (1023 - int i))) [0..<512]) @
             [Got None] @
             drop j (replicate 1024 Wrote @ map (\<lambda>i. Unwrote (Some (1023 - int i))) [0..<512]) @
             [Wrote, Flushed False] @
             map (\<lambda>i. Got (Some (int i))) [0..<512] @ [Got (Some (- 1)), Got None]))"
proof -
  note d = assms
  let ?r12 = "replicate 1024 (Wrote :: (unit, int) ret) @ map (\<lambda>i. Unwrote (Some (1023 - int i))) [0..<512]"
  let ?r35 = "map (\<lambda>i. Got (Some (int i)) :: (unit, int) ret) [0..<512] @ [Got (Some (- 1)), Got None]"
  from ctor_producing [OF d(2), of a0 h0]
  obtain s0 where c0: "Pipe_ctor 128 1 a0 sys0 h0 = Inr s0"
    and p0: "producing sys0 0 s0" and u0: "unused sys0 0 (mChunkList s0)"
    and n0: "mCommitEnd s0 \<noteq> None"
    by blast
  \<comment> \<open>the calls of \<open>main\<close>\<close>
  have plain: "returned 128 1 (writes_1024 @ unwrites_512 @ publish @ reads_514) s0 =
       Inr (replicate 1024 Wrote @ map (\<lambda>i. Unwrote (Some (1023 - int i))) [0..<512] @
            [Wrote, Flushed True] @ ?r35)"
    using rest_after [OF d, of 0 s0] p0 u0 n0 by (simp del: replicate_append_same)
  \<comment> \<open>the same calls with one \<open>read\<close> among those of the first phase\<close>
  from first_phase [OF d p0 u0]
  obtain t where t: "run 128 1 (writes_1024 @ unwrites_512) s0 = Inr t"
    and rt: "map fst t = ?r12"
    and it: "\<forall>j\<le>1536. producing sys0 (if j \<le> 1024 then j else 2048 - j) (before s0 t j) \<and>
        (j \<le> 1024 \<longrightarrow> unused sys0 j (mChunkList (before s0 t j))) \<and>
        mCommitEnd (before s0 t j) = mCommitEnd s0"
    by blast
  have lt: "length t = 1536"
    using run_length [OF t] by (simp add: writes_1024_def unwrites_512_def)
  have probe: "returned 128 1
          (take j (writes_1024 @ unwrites_512) @ [Read] @
           drop j (writes_1024 @ unwrites_512) @ publish @ reads_514) s0 =
        Inr (take j ?r12 @ [Got None] @ drop j ?r12 @ [Wrote, Flushed False] @ ?r35)"
    if j: "j \<le> 1536" for j
  proof -
    define cs where "cs = writes_1024 @ unwrites_512"
    define sj where "sj = before s0 t j"
    have lc: "length cs = 1536"
      by (simp add: cs_def writes_1024_def unwrites_512_def)
    from it [rule_format, OF j]
    have pj: "producing sys0 (if j \<le> 1024 then j else 2048 - j) sj"
      and uj: "j \<le> 1024 \<Longrightarrow> unused sys0 j (mChunkList sj)"
      and cj: "mCommitEnd sj \<noteq> None"
      using n0 by (simp_all add: sj_def)
    note rd = read_producing [OF pj cj]
    have st: "step 128 1 (Read :: (unit, int) call) sj = Inr (Got None, sj\<lparr>mCommitEnd := None\<rparr>)"
      using rd(1) by (rule step_Read)
    have rest: "returned 128 1 (drop j cs @ publish @ reads_514) (sj\<lparr>mCommitEnd := None\<rparr>) =
        Inr (drop j ?r12 @ [Wrote, Flushed False] @ ?r35)"
      unfolding cs_def
      using rest_after [OF d j rd(2)] uj by simp
    have tk: "run 128 1 (take j cs) s0 = Inr (take j t)"
      using t unfolding cs_def by (rule run_take)
    have bt: "before s0 (take j t) (length (take j cs)) = sj"
      using j lt lc by (simp add: before_take sj_def)
    have "returned 128 1 (take j cs @ Read # drop j cs @ publish @ reads_514) s0 =
        Inr (map fst (take j t) @ Got None # drop j ?r12 @ [Wrote, Flushed False] @ ?r35)"
    proof (rule returned_appendI [OF tk])
      show "returned 128 1 (Read # drop j cs @ publish @ reads_514)
          (before s0 (take j t) (length (take j cs))) =
        Inr (Got None # drop j ?r12 @ [Wrote, Flushed False] @ ?r35)"
        unfolding bt using st rest by (rule returned_ConsI)
    qed
    then show ?thesis
      unfolding take_map [symmetric] rt cs_def by (simp only: append_Cons append_Nil)
  qed
  show ?thesis
  proof (intro exI conjI allI impI)
    show "Pipe_ctor 128 1 a0 sys0 h0 = Inr s0"
      by (rule c0)
    show "returned 128 1 (writes_1024 @ unwrites_512 @ publish @ reads_514) s0 =
       Inr (replicate 1024 Wrote @ map (\<lambda>i. Unwrote (Some (1023 - int i))) [0..<512] @
            [Wrote, Flushed True] @ ?r35)"
      by (rule plain)
    fix j :: nat
    assume "j \<le> 1536"
    then show "returned 128 1
          (take j (writes_1024 @ unwrites_512) @ [Read] @
           drop j (writes_1024 @ unwrites_512) @ publish @ reads_514) s0 =
        Inr (take j ?r12 @ [Got None] @ drop j ?r12 @ [Wrote, Flushed False] @ ?r35)"
      by (rule probe)
  qed
qed

theorem demonstration_run_witness:
  "\<exists>s0. Pipe_ctor 128 1 cache0 [0..<9] (\<lambda>_. chunk0) = Inr s0 \<and>
     returned 128 1 (writes_1024 @ unwrites_512 @ publish @ reads_514) s0 =
       Inr (replicate 1024 Wrote @ map (\<lambda>i. Unwrote (Some (1023 - int i))) [0..<512] @
            [Wrote, Flushed True] @
            map (\<lambda>i. Got (Some (int i))) [0..<512] @ [Got (Some (- 1)), Got None]) \<and>
     returned 128 1
       (take 700 (writes_1024 @ unwrites_512) @ [Read] @
        drop 700 (writes_1024 @ unwrites_512) @ publish @ reads_514) s0 =
     Inr (take 700 (replicate 1024 Wrote @ map (\<lambda>i. Unwrote (Some (1023 - int i))) [0..<512]) @
          [Got None] @
          drop 700 (replicate 1024 Wrote @ map (\<lambda>i. Unwrote (Some (1023 - int i))) [0..<512]) @
          [Wrote, Flushed False] @
          map (\<lambda>i. Got (Some (int i))) [0..<512] @ [Got (Some (- 1)), Got None])"
proof -
  have d: "distinct (take 9 [0..<9])" "9 \<le> length [0..<9]"
    by simp_all
  from demonstration_run [OF d, of cache0 "\<lambda>_. chunk0"]
  obtain s0 where c: "Pipe_ctor 128 1 cache0 [0..<9] (\<lambda>_. chunk0) = Inr s0"
    and r: "returned 128 1 (writes_1024 @ unwrites_512 @ publish @ reads_514) s0 =
       Inr (replicate 1024 Wrote @ map (\<lambda>i. Unwrote (Some (1023 - int i))) [0..<512] @
            [Wrote, Flushed True] @
            map (\<lambda>i. Got (Some (int i))) [0..<512] @ [Got (Some (- 1)), Got None])"
    and p: "\<forall>j\<le>1536. returned 128 1
          (take j (writes_1024 @ unwrites_512) @ [Read] @
           drop j (writes_1024 @ unwrites_512) @ publish @ reads_514) s0 =
        Inr (take j (replicate 1024 Wrote @ map (\<lambda>i. Unwrote (Some (1023 - int i))) [0..<512]) @
             [Got None] @
             drop j (replicate 1024 Wrote @ map (\<lambda>i. Unwrote (Some (1023 - int i))) [0..<512]) @
             [Wrote, Flushed False] @
             map (\<lambda>i. Got (Some (int i))) [0..<512] @ [Got (Some (- 1)), Got None])"
    by (elim exE conjE)
  have le: "(700 :: nat) \<le> 1536"
    by simp
  show ?thesis
    by (intro exI conjI) (rule c, rule r, rule p [rule_format, OF le])
qed

text \<open>
  A second \<open>read\<close> in the first phase. Once a \<open>read\<close> has returned false,
  \<open>mCommitEnd\<close> is null and \<open>mReadEnd\<close> is still on the front slot, so the exchange
  of the next \<open>check_read\<close> fails and \<open>read\<close> takes the value of the front slot.
\<close>

lemma read_asleep_producing:
  assumes d: "distinct (take 9 sys0)" "9 \<le> length sys0"
    and p: "producing sys0 k s" and c: "mCommitEnd s = None"
    and k: "0 < k" "k \<le> 1024"
  shows "\<exists>s'. read 128 1 s = Inr (Some 0, s')"
proof -
  from p have sh: "shape sys0 int 0 k (mChunkList s)"
    and re: "mReadEnd s = Some (slot_of sys0 0)"
    by (simp_all add: producing_def)
  from read_step_list [OF d sh k]
  obtain cl1 cl2 where f: "front_addr (mChunkList s) = Inr (slot_of sys0 0)"
    and l: "load 128 (slot_of sys0 0) (mChunkList s) = Inr (int 0)"
    and dt: "dtor 128 (slot_of sys0 0) (mChunkList s) = Inr cl1"
    and po: "pop 128 1 cl1 = Inr cl2"
    by blast
  have cr: "check_read s = Inr (True, s\<lparr>mReadEnd := None\<rparr>)"
    using f re c by (simp add: check_read_def compare_exchange_strong_def)
  have "read 128 1 s = Inr (Some 0, s\<lparr>mReadEnd := None, mChunkList := cl2\<rparr>)"
    using cr f l dt po by (simp add: read_def)
  then show ?thesis ..
qed

lemma two_reads_after_writes:
  assumes d: "distinct (take 9 sys0)" "9 \<le> length sys0"
  shows "\<exists>s0. Pipe_ctor 128 1 a0 sys0 h0 = Inr s0 \<and>
     returned 128 1 (writes_1024 @ [Read, Read]) s0 =
       Inr (replicate 1024 Wrote @ [Got None, Got (Some 0)])"
proof -
  from ctor_producing [OF d(2), of a0 h0]
  obtain s0 where c0: "Pipe_ctor 128 1 a0 sys0 h0 = Inr s0"
    and p0: "producing sys0 0 s0" and u0: "unused sys0 0 (mChunkList s0)"
    and n0: "mCommitEnd s0 \<noteq> None"
    by blast
  from run_writes [OF d p0 u0, of 1024]
  obtain t1 where t1: "run 128 1 writes_1024 s0 = Inr t1"
    and r1: "map fst t1 = replicate 1024 Wrote"
    and i1: "\<forall>j\<le>1024. producing sys0 j (before s0 t1 j) \<and>
                unused sys0 j (mChunkList (before s0 t1 j)) \<and>
                mCommitEnd (before s0 t1 j) = mCommitEnd s0"
    by (auto simp: writes_1024_def)
  define s1 where "s1 = before s0 t1 (length writes_1024)"
  have p1: "producing sys0 1024 s1" and n1: "mCommitEnd s1 \<noteq> None"
    using i1 [rule_format, of 1024] n0 by (simp_all add: s1_def writes_1024_def)
  note rd = read_producing [OF p1 n1]
  have st1: "step 128 1 (Read :: (unit, int) call) s1 = Inr (Got None, s1\<lparr>mCommitEnd := None\<rparr>)"
    using rd(1) by (rule step_Read)
  from read_asleep_producing [OF d rd(2)]
  obtain s2 where "read 128 1 (s1\<lparr>mCommitEnd := None\<rparr>) = Inr (Some 0, s2)"
    by auto
  then have st2: "step 128 1 (Read :: (unit, int) call) (s1\<lparr>mCommitEnd := None\<rparr>) = Inr (Got (Some 0), s2)"
    by (rule step_Read)
  have e: "returned 128 1 ([] :: (unit, int) call list) s2 = Inr []"
    by (simp add: returned_def)
  have "returned 128 1 [Read, Read] s1 = Inr [Got None, Got (Some 0) :: (unit, int) ret]"
    by (rule returned_ConsI [OF st1]) (rule returned_ConsI [OF st2 e])
  then have "returned 128 1 (writes_1024 @ [Read, Read]) s0 = Inr (map fst t1 @ [Got None, Got (Some 0)])"
    unfolding s1_def by (rule returned_appendI [OF t1])
  with c0 r1 show ?thesis
    by simp
qed

text \<open>
  Claim C4 at the fresh pipe of \<open>main\<close> over the free store \<open>0, \<dots>, 8\<close>: after the 1024
  incomplete writes and with no \<open>flush\<close>, the first \<open>read\<close> returns false and the second
  \<open>read\<close> returns true with the value 0, which the producer has not published.
\<close>

theorem read_twice_before_flush:
  "\<exists>s0. Pipe_ctor 128 1 cache0 [0..<9] (\<lambda>_. chunk0) = Inr s0 \<and>
     returned 128 1 (writes_1024 @ [Read, Read]) s0 =
       Inr (replicate 1024 Wrote @ [Got None, Got (Some 0)])"
  by (rule two_reads_after_writes) simp_all

end
